theory Spec2Isabelle
  imports Main
begin

section \<open>Requests and the memory that holds them\<close>

text \<open>
  A \<^verbatim>\<open>Request *\<close> is an address or the null pointer: \<open>None\<close> is \<^verbatim>\<open>NULL\<close>.
  The request structures live in a heap, a partial map from addresses to structures;
  an address outside its domain is a pointer to memory that is not (or no longer)
  allocated. C strings are kept as values: a \<^verbatim>\<open>char *\<close> field is a
  \<open>string option\<close>, \<open>None\<close> for \<^verbatim>\<open>NULL\<close>, and \<^verbatim>\<open>strdup\<close> copies the value.
  Dereferencing a null or unallocated pointer is a fault, returned as a value, and so
  is writing past the end of a character buffer.
\<close>

type_synonym addr = nat

datatype fault = NullPointer | InvalidPointer | BufferOverflow

text \<open>
  Modelled from the spec: the structure \<^verbatim>\<open>Request\<close> is declared in
  \<^verbatim>\<open>smq/request.h\<close>, which is not among the sources. By the data model it has
  three optional strings, \<open>method\<close>, \<open>url\<close> and \<open>body\<close>; the code also uses its
  link \<open>next\<close> to the request behind it in a queue.
\<close>

record Request =
  "method" :: "string option"
  url :: "string option"
  body :: "string option"
  "next" :: "addr option"

type_synonym heap = "addr \<Rightarrow> Request option"

text \<open>
  \<^verbatim>\<open>request_create(method, url, body)\<close>. The second argument is what
  \<^verbatim>\<open>calloc\<close> returned: \<open>None\<close> when the allocation failed, and then the function
  returns \<^verbatim>\<open>NULL\<close>. The structure is zeroed, so its \<open>next\<close> link is null.
\<close>

definition request_create ::
  "heap \<Rightarrow> addr option \<Rightarrow> string option \<Rightarrow> string option \<Rightarrow> string option \<Rightarrow> heap \<times> addr option" where
  "request_create h r m u b =
     (case r of
        None \<Rightarrow> (h, None)
      | Some a \<Rightarrow> (h(a \<mapsto> \<lparr>method = m, url = u, body = b, next = None\<rparr>), Some a))"

text \<open>
  \<^verbatim>\<open>request_delete(r)\<close>: nothing for a null pointer; otherwise each of the three
  strings that the structure still points to is freed, then the structure itself.
  The result lists the strings handed to \<^verbatim>\<open>free\<close>, in call order: \<open>held p\<close> is the
  string behind a pointer that is not null.
\<close>

definition held :: "string option \<Rightarrow> string list" where
  "held p = (case p of None \<Rightarrow> [] | Some x \<Rightarrow> [x])"

definition request_delete :: "heap \<Rightarrow> addr option \<Rightarrow> fault + heap \<times> string list" where
  "request_delete h r =
     (case r of
        None \<Rightarrow> Inr (h, [])
      | Some a \<Rightarrow>
          (case h a of
             None \<Rightarrow> Inl InvalidPointer
           | Some ra \<Rightarrow> Inr (h(a := None), held (method ra) @ held (url ra) @ held (body ra))))"

section \<open>The queue\<close>

text \<open>
  Modelled from the spec: the structure \<^verbatim>\<open>Queue\<close> is declared in
  \<^verbatim>\<open>smq/queue.h\<close>, which is not among the sources. By the data model it is a
  sequence of requests with a running flag and a size count; the queue functions
  read and write its fields \<open>running\<close>, \<open>size\<close>, \<open>head\<close> and \<open>tail\<close>. The count is
  a natural number here. The mutex and the two condition variables carry no data:
  every queue function runs with the mutex held, so a call is one atomic step on
  the state; only the wait inside \<^verbatim>\<open>queue_pop\<close> releases the mutex, and the
  calls of other threads that fall into it are part of the model of that wait.
\<close>

record Queue =
  running :: bool
  size :: nat
  head :: "addr option"
  tail :: "addr option"

definition queue_create :: "bool \<Rightarrow> Queue option" where
  "queue_create allocated =
     (if allocated
      then Some \<lparr>Queue.running = True, size = 0, head = None, tail = None\<rparr>
      else None)"

definition queue_shutdown :: "Queue \<Rightarrow> Queue" where
  "queue_shutdown q = q\<lparr>Queue.running := False\<rparr>"

text \<open>
  \<^verbatim>\<open>queue_push(q, r)\<close>. A queue that is not running returns before it touches
  \<^verbatim>\<open>r\<close>. Otherwise \<^verbatim>\<open>r->next = NULL\<close> comes first, then the link from the old tail,
  read in the heap as the first assignment left it.
\<close>

definition queue_push :: "heap \<Rightarrow> Queue \<Rightarrow> addr option \<Rightarrow> fault + heap \<times> Queue" where
  "queue_push h q r =
     (if \<not> Queue.running q then Inr (h, q)
      else case r of
        None \<Rightarrow> Inl NullPointer
      | Some a \<Rightarrow>
          (case h a of
             None \<Rightarrow> Inl InvalidPointer
           | Some ra \<Rightarrow>
               let h1 = h(a \<mapsto> ra\<lparr>next := None\<rparr>) in
               if size q = 0
               then Inr (h1, q\<lparr>head := Some a, tail := Some a, size := size q + 1\<rparr>)
               else (case tail q of
                       None \<Rightarrow> Inl NullPointer
                     | Some t \<Rightarrow>
                         (case h1 t of
                            None \<Rightarrow> Inl InvalidPointer
                          | Some rt \<Rightarrow>
                              Inr (h1(t \<mapsto> rt\<lparr>next := Some a\<rparr>),
                                   q\<lparr>tail := Some a, size := size q + 1\<rparr>)))))"

text \<open>
  The statements of \<^verbatim>\<open>queue_pop\<close> behind its wait loop: the request at the head is
  detached, the count decremented, the link of the request cleared, and its address
  returned.
\<close>

definition take_head :: "heap \<Rightarrow> Queue \<Rightarrow> fault + heap \<times> Queue \<times> addr option" where
  "take_head h q =
     (case head q of
        None \<Rightarrow> Inl NullPointer
      | Some a \<Rightarrow>
          (case h a of
             None \<Rightarrow> Inl InvalidPointer
           | Some ra \<Rightarrow>
               let q1 = (if size q = 1 then q\<lparr>head := None, tail := None\<rparr>
                         else q\<lparr>head := next ra\<rparr>)
               in Inr (h(a \<mapsto> ra\<lparr>next := None\<rparr>), q1\<lparr>size := size q - 1\<rparr>, Some a)))"

text \<open>
  While a thread waits in \<^verbatim>\<open>pthread_cond_timedwait\<close> the mutex is released, and
  other threads call the queue functions. Such a call is a push, a shutdown, or a pop
  of another thread at the moment it leaves its own wait: with the request at the
  head when there is one, with \<^verbatim>\<open>NULL\<close> otherwise. Each call leaves an event: whether
  the push found the queue running, and what the pop returned.
\<close>

datatype call = Call_push addr | Call_pop | Call_shutdown

datatype event = Accepted addr | Rejected | Returned "addr option" | Stopped

fun call_step :: "heap \<times> Queue \<Rightarrow> call \<Rightarrow> fault + (heap \<times> Queue) \<times> event" where
  "call_step (h, q) (Call_push a) =
     (case queue_push h q (Some a) of
        Inl f \<Rightarrow> Inl f
      | Inr s \<Rightarrow> Inr (s, if Queue.running q then Accepted a else Rejected))"
| "call_step (h, q) Call_pop =
     (if size q = 0 then Inr ((h, q), Returned None)
      else case take_head h q of
        Inl f \<Rightarrow> Inl f
      | Inr (h', q', r) \<Rightarrow> Inr ((h', q'), Returned r))"
| "call_step (h, q) Call_shutdown = Inr ((h, queue_shutdown q), Stopped)"

fun calls :: "heap \<times> Queue \<Rightarrow> call list \<Rightarrow> fault + (heap \<times> Queue) \<times> event list" where
  "calls s [] = Inr (s, [])"
| "calls s (c # cs) =
     (case call_step s c of
        Inl f \<Rightarrow> Inl f
      | Inr (s1, e) \<Rightarrow>
          (case calls s1 cs of
             Inl f \<Rightarrow> Inl f
           | Inr (s2, es) \<Rightarrow> Inr (s2, e # es)))"

text \<open>
  Modelled from the spec: \<^verbatim>\<open>compute_stoptime\<close> is a macro of \<^verbatim>\<open>smq/utils.h\<close>,
  which is not among the sources; by the specification it sets the absolute deadline
  of the wait to the time of the call plus \<open>timeout\<close> milliseconds.

  The wait loop of \<^verbatim>\<open>queue_pop\<close>:
  \<^verbatim>\<open>while (q->size == 0) { if (pthread_cond_timedwait(...) == ETIMEDOUT) return NULL; }\<close>.
  Each element of \<open>wakes\<close> is one return of \<^verbatim>\<open>pthread_cond_timedwait\<close>: the time of
  the return, in milliseconds after the call of \<^verbatim>\<open>queue_pop\<close>, and the calls that
  other threads made on the queue while the mutex was released. A return before the
  deadline is a wake (by a signal or spurious), and the loop reads \<open>size\<close> again; a
  return that is not before the deadline is \<^verbatim>\<open>ETIMEDOUT\<close>, and the function returns
  \<^verbatim>\<open>NULL\<close> without another look at \<open>size\<close>. When \<open>wakes\<close> is used up nothing
  touches the queue until the deadline. The result is the state the loop leaves, the
  events of the other threads' calls, and whether the loop was left with a request
  to take (\<open>False\<close>: the function returns \<^verbatim>\<open>NULL\<close> from inside the loop).
\<close>

type_synonym wakes = "(nat \<times> call list) list"

fun wait_produced ::
  "heap \<times> Queue \<Rightarrow> nat \<Rightarrow> wakes \<Rightarrow> fault + (heap \<times> Queue) \<times> event list \<times> bool" where
  "wait_produced (h, q) timeout [] = Inr ((h, q), [], size q \<noteq> 0)"
| "wait_produced (h, q) timeout ((t, cs) # wakes) =
     (if size q \<noteq> 0 then Inr ((h, q), [], True)
      else case calls (h, q) cs of
        Inl f \<Rightarrow> Inl f
      | Inr (s1, es) \<Rightarrow>
          if t < timeout
          then (case wait_produced s1 timeout wakes of
                  Inl f \<Rightarrow> Inl f
                | Inr (s2, es2, got) \<Rightarrow> Inr (s2, es @ es2, got))
          else Inr (s1, es, False))"

text \<open>
  \<^verbatim>\<open>queue_pop(q, timeout)\<close>: the wait loop, then the request at the head; \<open>None\<close> is
  the \<^verbatim>\<open>NULL\<close> of a timed-out wait. The events are those of the other threads' calls
  during the wait.
\<close>

definition queue_pop ::
  "heap \<Rightarrow> Queue \<Rightarrow> nat \<Rightarrow> wakes \<Rightarrow> fault + (heap \<times> Queue \<times> addr option) \<times> event list" where
  "queue_pop h q timeout wakes =
     (case wait_produced (h, q) timeout wakes of
        Inl f \<Rightarrow> Inl f
      | Inr ((h1, q1), es, got) \<Rightarrow>
          if \<not> got then Inr ((h1, q1, None), es)
          else (case take_head h1 q1 of
                  Inl f \<Rightarrow> Inl f
                | Inr r \<Rightarrow> Inr (r, es)))"

section \<open>The list a queue holds\<close>

text \<open>
  \<open>chain h p xs\<close>: following the \<open>next\<close> links from the pointer \<open>p\<close> visits
  exactly the allocated requests \<open>xs\<close>, in that order, and ends at the null pointer.
\<close>

fun chain :: "heap \<Rightarrow> addr option \<Rightarrow> addr list \<Rightarrow> bool" where
  "chain h p [] = (p = None)"
| "chain h p (a # as) =
     (p = Some a \<and> (case h a of None \<Rightarrow> False | Some r \<Rightarrow> chain h (next r) as))"

text \<open>
  The data-model invariants of the queue, for the contents \<open>xs\<close>: the requests
  reachable from \<open>head\<close> are \<open>xs\<close>, each linked once; \<open>size\<close> is their number;
  \<open>tail\<close> is the last of them, and null when there is none.
\<close>

definition queue_abs :: "heap \<Rightarrow> Queue \<Rightarrow> addr list \<Rightarrow> bool" where
  "queue_abs h q xs =
     (chain h (head q) xs \<and> distinct xs \<and> size q = length xs \<and>
      tail q = (if xs = [] then None else Some (last xs)))"

section \<open>Sequences of queue operations\<close>

text \<open>
  The calls that threads make on one queue, in the order in which they take its
  mutex: \<open>Push a\<close> is \<^verbatim>\<open>queue_push\<close> with the request at address \<open>a\<close>,
  \<open>Pop timeout wakes\<close> is \<^verbatim>\<open>queue_pop\<close> with what happens during its wait,
  \<open>Shutdown\<close> is \<^verbatim>\<open>queue_shutdown\<close>. The events of a pop are those of its wait,
  then what it returned.
\<close>

datatype queue_op = Push addr | Pop nat wakes | Shutdown

fun step :: "heap \<times> Queue \<Rightarrow> queue_op \<Rightarrow> fault + (heap \<times> Queue) \<times> event list" where
  "step s (Push a) =
     (case call_step s (Call_push a) of Inl f \<Rightarrow> Inl f | Inr (s1, e) \<Rightarrow> Inr (s1, [e]))"
| "step (h, q) (Pop timeout wakes) =
     (case queue_pop h q timeout wakes of
        Inl f \<Rightarrow> Inl f
      | Inr ((h', q', r), es) \<Rightarrow> Inr ((h', q'), es @ [Returned r]))"
| "step s Shutdown =
     (case call_step s Call_shutdown of Inl f \<Rightarrow> Inl f | Inr (s1, e) \<Rightarrow> Inr (s1, [e]))"

fun run :: "heap \<times> Queue \<Rightarrow> queue_op list \<Rightarrow> fault + (heap \<times> Queue) \<times> event list" where
  "run s [] = Inr (s, [])"
| "run s (x # ops) =
     (case step s x of
        Inl f \<Rightarrow> Inl f
      | Inr (s1, es1) \<Rightarrow>
          (case run s1 ops of
             Inl f \<Rightarrow> Inl f
           | Inr (s2, es2) \<Rightarrow> Inr (s2, es1 @ es2)))"

text \<open>
  The queue as the specification describes it: a running flag and a sequence of
  requests. A push appends when the queue is running and is dropped otherwise, a pop
  waits until there is a request or the deadline has passed and takes the first
  request when there is one, shutdown clears the flag.
\<close>

fun spec_call :: "bool \<times> addr list \<Rightarrow> call \<Rightarrow> (bool \<times> addr list) \<times> event" where
  "spec_call (r, xs) (Call_push a) =
     (if r then ((r, xs @ [a]), Accepted a) else ((r, xs), Rejected))"
| "spec_call (r, xs) Call_pop =
     (case xs of [] \<Rightarrow> ((r, []), Returned None) | x # xs' \<Rightarrow> ((r, xs'), Returned (Some x)))"
| "spec_call (r, xs) Call_shutdown = ((False, xs), Stopped)"

fun spec_calls :: "bool \<times> addr list \<Rightarrow> call list \<Rightarrow> (bool \<times> addr list) \<times> event list" where
  "spec_calls s [] = (s, [])"
| "spec_calls s (c # cs) =
     (let (s1, e) = spec_call s c; (s2, es) = spec_calls s1 cs in (s2, e # es))"

fun spec_wait ::
  "bool \<times> addr list \<Rightarrow> nat \<Rightarrow> wakes \<Rightarrow> (bool \<times> addr list) \<times> event list \<times> bool" where
  "spec_wait s timeout [] = (s, [], snd s \<noteq> [])"
| "spec_wait s timeout ((t, cs) # wakes) =
     (if snd s \<noteq> [] then (s, [], True)
      else let (s1, es) = spec_calls s cs in
        if t < timeout
        then (let (s2, es2, got) = spec_wait s1 timeout wakes in (s2, es @ es2, got))
        else (s1, es, False))"

definition spec_pop ::
  "bool \<times> addr list \<Rightarrow> nat \<Rightarrow> wakes \<Rightarrow> (bool \<times> addr list) \<times> event list" where
  "spec_pop s timeout wakes =
     (let (s1, es, got) = spec_wait s timeout wakes in
      if got then (let (s2, e) = spec_call s1 Call_pop in (s2, es @ [e]))
      else (s1, es @ [Returned None]))"

fun spec_step :: "bool \<times> addr list \<Rightarrow> queue_op \<Rightarrow> (bool \<times> addr list) \<times> event list" where
  "spec_step s (Push a) = (let (s1, e) = spec_call s (Call_push a) in (s1, [e]))"
| "spec_step s (Pop timeout wakes) = spec_pop s timeout wakes"
| "spec_step s Shutdown = (let (s1, e) = spec_call s Call_shutdown in (s1, [e]))"

fun spec_run :: "bool \<times> addr list \<Rightarrow> queue_op list \<Rightarrow> (bool \<times> addr list) \<times> event list" where
  "spec_run s [] = (s, [])"
| "spec_run s (x # ops) =
     (let (s1, es1) = spec_step s x; (s2, es2) = spec_run s1 ops in (s2, es1 @ es2))"

text \<open>
  The ownership rule of the data model, for the calls of a sequence and of the waits
  in it that take place: a request handed to a running queue is allocated and is not
  linked into the queue at that moment. (A push onto a queue that is not running
  does not look at its request.)
\<close>

fun owned_call :: "heap \<Rightarrow> bool \<times> addr list \<Rightarrow> call \<Rightarrow> bool" where
  "owned_call h s (Call_push a) = (if fst s then h a \<noteq> None \<and> a \<notin> set (snd s) else True)"
| "owned_call h s Call_pop = True"
| "owned_call h s Call_shutdown = True"

fun owned_calls :: "heap \<Rightarrow> bool \<times> addr list \<Rightarrow> call list \<Rightarrow> bool" where
  "owned_calls h s [] = True"
| "owned_calls h s (c # cs) = (owned_call h s c \<and> owned_calls h (fst (spec_call s c)) cs)"

fun owned_wait :: "heap \<Rightarrow> bool \<times> addr list \<Rightarrow> nat \<Rightarrow> wakes \<Rightarrow> bool" where
  "owned_wait h s timeout [] = True"
| "owned_wait h s timeout ((t, cs) # wakes) =
     (if snd s \<noteq> [] then True
      else owned_calls h s cs \<and>
           (if t < timeout then owned_wait h (fst (spec_calls s cs)) timeout wakes else True))"

fun owned_ops :: "heap \<Rightarrow> bool \<times> addr list \<Rightarrow> queue_op list \<Rightarrow> bool" where
  "owned_ops h s [] = True"
| "owned_ops h s (x # ops) =
     ((case x of
         Push a \<Rightarrow> owned_call h s (Call_push a)
       | Pop timeout wakes \<Rightarrow> owned_wait h s timeout wakes
       | Shutdown \<Rightarrow> True) \<and>
      owned_ops h (fst (spec_step s x)) ops)"

text \<open>
  Reading the event list of a run: the requests that pops returned, the requests that
  pushes handed to the running queue, and their number. \<open>pushed\<close> are the pushes
  that a sequence of calls lists outside its waits.
\<close>

definition returned :: "event list \<Rightarrow> addr list" where
  "returned es = concat (map (\<lambda>e. case e of Returned (Some a) \<Rightarrow> [a] | _ \<Rightarrow> []) es)"

definition sent :: "event list \<Rightarrow> addr list" where
  "sent es = concat (map (\<lambda>e. case e of Accepted a \<Rightarrow> [a] | _ \<Rightarrow> []) es)"

definition accepted :: "event list \<Rightarrow> nat" where
  "accepted es = length (sent es)"

definition pushed :: "queue_op list \<Rightarrow> addr list" where
  "pushed ops = concat (map (\<lambda>x. case x of Push a \<Rightarrow> [a] | _ \<Rightarrow> []) ops)"

text \<open>
  Sequences with one producer and one consumer: no shutdown, and the calls of other
  threads during a wait are pushes. In a quiet sequence no other thread calls during
  a wait at all.
\<close>

definition pushes_only :: "wakes \<Rightarrow> bool" where
  "pushes_only wakes =
     list_all (\<lambda>(t, cs). list_all (\<lambda>c. case c of Call_push a \<Rightarrow> True | _ \<Rightarrow> False) cs) wakes"

definition one_consumer :: "queue_op list \<Rightarrow> bool" where
  "one_consumer ops =
     list_all (\<lambda>x. case x of Push a \<Rightarrow> True | Pop t wakes \<Rightarrow> pushes_only wakes
                    | Shutdown \<Rightarrow> False) ops"

definition quiet :: "queue_op list \<Rightarrow> bool" where
  "quiet ops =
     list_all (\<lambda>x. case x of Pop t wakes \<Rightarrow> list_all (\<lambda>(u, cs). cs = []) wakes | _ \<Rightarrow> True) ops"

text \<open>
  What a request carries apart from its link, and heaps that hold the same requests
  with the same contents at the same addresses.
\<close>

definition payload :: "Request \<Rightarrow> string option \<times> string option \<times> string option" where
  "payload r = (method r, url r, body r)"

definition same_requests :: "heap \<Rightarrow> heap \<Rightarrow> bool" where
  "same_requests h h' = (\<forall>a. map_option payload (h' a) = map_option payload (h a))"

section \<open>The client\<close>

text \<open>
  Modelled from the spec: the structure \<^verbatim>\<open>SMQ\<close> is declared in
  \<^verbatim>\<open>smq/client.h\<close>, which is not among the sources. By the data model a client has
  a name, a server URL, a timeout in milliseconds, a running flag, two owned queues
  and two worker handles; the client functions use the fields below. The two queues
  are kept inside the client. Its mutex guards the flag only and carries no data.
\<close>

record SMQ =
  name :: string
  server_url :: string
  timeout :: nat
  running :: bool
  outgoing :: Queue
  incoming :: Queue
  pusher :: nat
  puller :: nat

text \<open>
  What the client functions act on: the heap of requests, the client that the pointer
  \<^verbatim>\<open>smq\<close> refers to (\<open>None\<close> for a null pointer), the thread handles that
  \<^verbatim>\<open>thread_join\<close> has been called on so far, and the strings that have been handed
  to \<^verbatim>\<open>free\<close> so far, both in call order.
\<close>

record world =
  mem :: heap
  smq :: "SMQ option"
  joined :: "nat list"
  freed :: "string list"

text \<open>
  Modelled from the spec: \<^verbatim>\<open>thread_join\<close> is a macro of \<^verbatim>\<open>smq/thread.h\<close>, which
  is not among the sources; by the specification it joins the worker whose handle it
  is given. The call is recorded.
\<close>

definition thread_join :: "nat \<Rightarrow> nat list \<Rightarrow> nat list" where
  "thread_join t js = js @ [t]"

text \<open>
  \<^verbatim>\<open>smq_create(name, host, port)\<close>. The three flags say whether the allocation of the
  client and of each queue succeeded; \<open>t1\<close> and \<open>t2\<close> are the handles of the threads
  it starts. \<^verbatim>\<open>snprintf\<close> into \<^verbatim>\<open>url[1<<8]\<close> keeps at most 255 characters.
\<close>

definition smq_create ::
  "string \<Rightarrow> string \<Rightarrow> string \<Rightarrow> bool \<Rightarrow> bool \<Rightarrow> bool \<Rightarrow> nat \<Rightarrow> nat \<Rightarrow> SMQ option" where
  "smq_create nm host port allocated out_allocated in_allocated t1 t2 =
     (if \<not> allocated then None
      else case queue_create out_allocated of
        None \<Rightarrow> None
      | Some out \<Rightarrow>
          (case queue_create in_allocated of
             None \<Rightarrow> None
           | Some inc \<Rightarrow>
               Some \<lparr>name = nm, server_url = take 255 (host @ '':'' @ port), timeout = 2000,
                     running = True, outgoing = out, incoming = inc,
                     pusher = t1, puller = t2\<rparr>))"

definition smq_running :: "SMQ \<Rightarrow> bool" where
  "smq_running c = SMQ.running c"

text \<open>
  \<^verbatim>\<open>sprintf(url, ...)\<close> into the local array \<^verbatim>\<open>char url[BUFSIZ]\<close>: the formatted
  characters and the terminating zero are written with no check of the length, so a
  formatted string of \<^verbatim>\<open>BUFSIZ\<close> characters or more runs past the end of the array.
  \<^verbatim>\<open>BUFSIZ\<close> is a constant of the C library (8192 in glibc); it is the parameter
  \<open>bufsiz\<close> of the three functions that format a URL this way.
\<close>

definition sprintf :: "nat \<Rightarrow> string \<Rightarrow> fault + string" where
  "sprintf bufsiz s = (if length s < bufsiz then Inr s else Inl BufferOverflow)"

text \<open>
  \<^verbatim>\<open>smq_publish(smq, topic, body)\<close>; \<open>alloc\<close> is what \<^verbatim>\<open>calloc\<close> returns inside
  \<^verbatim>\<open>request_create\<close>.
\<close>

definition smq_publish ::
  "nat \<Rightarrow> world \<Rightarrow> string \<Rightarrow> string option \<Rightarrow> addr option \<Rightarrow> fault + world" where
  "smq_publish bufsiz w topic b alloc =
     (case smq w of
        None \<Rightarrow> Inl NullPointer
      | Some c \<Rightarrow>
          if \<not> SMQ.running c then Inr w
          else
            (case sprintf bufsiz (server_url c @ ''/topic/'' @ topic) of
               Inl f \<Rightarrow> Inl f
             | Inr u \<Rightarrow>
                 let (h1, r) = request_create (mem w) alloc (Some ''PUT'') (Some u) b
                 in (case queue_push h1 (outgoing c) r of
                       Inl f \<Rightarrow> Inl f
                     | Inr (h2, q2) \<Rightarrow>
                         Inr (w\<lparr>mem := h2, smq := Some (c\<lparr>outgoing := q2\<rparr>)\<rparr>))))"

text \<open>
  \<^verbatim>\<open>smq_retrieve(smq)\<close>: the body is taken out of the popped request
  (\<^verbatim>\<open>r->body = NULL\<close>) before the request is deleted, and returned. \<open>wakes\<close> is
  what happens during the wait of the pop, which other threads' calls on the incoming
  queue (the pushes of the puller among them) can end.
\<close>

definition smq_retrieve :: "world \<Rightarrow> wakes \<Rightarrow> fault + world \<times> string option" where
  "smq_retrieve w wakes =
     (case smq w of
        None \<Rightarrow> Inl NullPointer
      | Some c \<Rightarrow>
          if \<not> smq_running c then Inr (w, None)
          else
            (case queue_pop (mem w) (incoming c) (timeout c) wakes of
               Inl f \<Rightarrow> Inl f
             | Inr ((h1, q1, r), es) \<Rightarrow>
                 (case r of
                    None \<Rightarrow> Inr (w\<lparr>mem := h1, smq := Some (c\<lparr>incoming := q1\<rparr>)\<rparr>, None)
                  | Some a \<Rightarrow>
                      (case h1 a of
                         None \<Rightarrow> Inl InvalidPointer
                       | Some ra \<Rightarrow>
                           (case request_delete (h1(a \<mapsto> ra\<lparr>body := None\<rparr>)) (Some a) of
                              Inl f \<Rightarrow> Inl f
                            | Inr (h2, fs) \<Rightarrow>
                                Inr (w\<lparr>mem := h2, smq := Some (c\<lparr>incoming := q1\<rparr>),
                                       freed := freed w @ fs\<rparr>,
                                     body ra))))))"

text \<open>
  \<^verbatim>\<open>smq_subscribe(smq, topic)\<close> and \<^verbatim>\<open>smq_unsubscribe(smq, topic)\<close>: neither reads
  the running flag of the client.
\<close>

definition smq_subscribe :: "nat \<Rightarrow> world \<Rightarrow> string \<Rightarrow> addr option \<Rightarrow> fault + world" where
  "smq_subscribe bufsiz w topic alloc =
     (case smq w of
        None \<Rightarrow> Inl NullPointer
      | Some c \<Rightarrow>
          (case sprintf bufsiz (server_url c @ ''/subscription/'' @ name c @ ''/'' @ topic) of
             Inl f \<Rightarrow> Inl f
           | Inr u \<Rightarrow>
               let (h1, r) = request_create (mem w) alloc (Some ''PUT'') (Some u) None
               in (case queue_push h1 (outgoing c) r of
                     Inl f \<Rightarrow> Inl f
                   | Inr (h2, q2) \<Rightarrow>
                       Inr (w\<lparr>mem := h2, smq := Some (c\<lparr>outgoing := q2\<rparr>)\<rparr>))))"

definition smq_unsubscribe :: "nat \<Rightarrow> world \<Rightarrow> string \<Rightarrow> addr option \<Rightarrow> fault + world" where
  "smq_unsubscribe bufsiz w topic alloc =
     (case smq w of
        None \<Rightarrow> Inl NullPointer
      | Some c \<Rightarrow>
          (case sprintf bufsiz (server_url c @ ''/subscription/'' @ name c @ ''/'' @ topic) of
             Inl f \<Rightarrow> Inl f
           | Inr u \<Rightarrow>
               let (h1, r) = request_create (mem w) alloc (Some ''DELETE'') (Some u) None
               in (case queue_push h1 (outgoing c) r of
                     Inl f \<Rightarrow> Inl f
                   | Inr (h2, q2) \<Rightarrow>
                       Inr (w\<lparr>mem := h2, smq := Some (c\<lparr>outgoing := q2\<rparr>)\<rparr>))))"

text \<open>
  \<^verbatim>\<open>smq_shutdown(smq)\<close>: the only guard is the null check. Then both queues are shut
  down, the flag is cleared, and \<^verbatim>\<open>thread_join\<close> is called on the pusher and on the
  puller.
\<close>

definition smq_shutdown :: "world \<Rightarrow> world" where
  "smq_shutdown w =
     (case smq w of
        None \<Rightarrow> w
      | Some c \<Rightarrow>
          w\<lparr>smq := Some (c\<lparr>outgoing := queue_shutdown (outgoing c),
                            incoming := queue_shutdown (incoming c),
                            running := False\<rparr>),
            joined := thread_join (puller c) (thread_join (pusher c) (joined w))\<rparr>)"

section \<open>The pusher\<close>

text \<open>
  One pass through the body of the loop of \<^verbatim>\<open>smq_pusher\<close>. \<open>wakes\<close> is what
  happens during the wait of its pop. \<open>response\<close> is what \<^verbatim>\<open>request_perform\<close>
  returned for the popped request (\<open>None\<close> when the transport failed). No lock is
  held while the transport runs: \<open>meanwhile\<close> are the calls that other threads make
  on the outgoing queue during that time. After a success the request is deleted and
  the response freed.
\<close>

definition smq_pusher_iteration ::
  "world \<Rightarrow> wakes \<Rightarrow> queue_op list \<Rightarrow> string option \<Rightarrow> fault + world" where
  "smq_pusher_iteration w wakes meanwhile response =
     (case smq w of
        None \<Rightarrow> Inl NullPointer
      | Some c \<Rightarrow>
          (case queue_pop (mem w) (outgoing c) (timeout c) wakes of
             Inl f \<Rightarrow> Inl f
           | Inr ((h1, q1, r), es1) \<Rightarrow>
               (case r of
                  None \<Rightarrow> Inr (w\<lparr>mem := h1, smq := Some (c\<lparr>outgoing := q1\<rparr>)\<rparr>)
                | Some a \<Rightarrow>
                    (case run (h1, q1) meanwhile of
                       Inl f \<Rightarrow> Inl f
                     | Inr ((h2, q2), es) \<Rightarrow>
                         (case response of
                            None \<Rightarrow>
                              (case queue_push h2 q2 (Some a) of
                                 Inl f \<Rightarrow> Inl f
                               | Inr (h3, q3) \<Rightarrow>
                                   Inr (w\<lparr>mem := h3, smq := Some (c\<lparr>outgoing := q3\<rparr>)\<rparr>))
                          | Some s \<Rightarrow>
                              (case request_delete h2 (Some a) of
                                 Inl f \<Rightarrow> Inl f
                               | Inr (h3, fs) \<Rightarrow>
                                   Inr (w\<lparr>mem := h3, smq := Some (c\<lparr>outgoing := q2\<rparr>),
                                          freed := freed w @ fs @ [s]\<rparr>)))))))"

text \<open>
  \<open>n\<close> passes through the loop body in a row, each with a failed transport, an
  immediate pop and no call of another thread in between.
\<close>

fun failing_iterations :: "nat \<Rightarrow> world \<Rightarrow> fault + world" where
  "failing_iterations 0 w = Inr w"
| "failing_iterations (Suc n) w =
     (case smq_pusher_iteration w [] [] None of
        Inl f \<Rightarrow> Inl f
      | Inr w' \<Rightarrow> failing_iterations n w')"

section \<open>Concrete states\<close>

text \<open>
  Three unlinked requests at the addresses 1, 2 and 3; the queue that holds the first
  two of them, and the heap with their link; a client as \<^verbatim>\<open>smq_create\<close> returns it,
  and the same client after one publish.
\<close>

definition message :: "string \<Rightarrow> Request" where
  "message b = \<lparr>method = Some ''PUT'', url = Some ''localhost:8080/topic/t'',
                 body = Some b, next = None\<rparr>"

definition three_requests :: heap where
  "three_requests = [1 \<mapsto> message ''one'', 2 \<mapsto> message ''two'', 3 \<mapsto> message ''three'']"

definition empty_queue :: Queue where
  "empty_queue = \<lparr>Queue.running = True, size = 0, head = None, tail = None\<rparr>"

definition two_linked :: heap where
  "two_linked = three_requests(1 \<mapsto> (message ''one'')\<lparr>next := Some 2\<rparr>)"

definition queue_of_two :: Queue where
  "queue_of_two = \<lparr>Queue.running = True, size = 2, head = Some 1, tail = Some 2\<rparr>"

definition alice :: SMQ where
  "alice = \<lparr>name = ''alice'', server_url = ''localhost:8080'', timeout = 2000,
            running = True, outgoing = empty_queue, incoming = empty_queue,
            pusher = 1, puller = 2\<rparr>"

definition alice_world :: world where
  "alice_world = \<lparr>mem = Map.empty, smq = Some alice, joined = [], freed = []\<rparr>"

definition alice_published :: world where
  "alice_published =
     \<lparr>mem = [1 \<mapsto> message ''hello''],
      smq = Some (alice\<lparr>outgoing :=
              \<lparr>Queue.running = True, size = 1, head = Some 1, tail = Some 1\<rparr>\<rparr>),
      joined = [], freed = []\<rparr>"

text \<open>The client with one received message waiting in its incoming queue.\<close>

definition alice_received :: world where
  "alice_received =
     \<lparr>mem = [5 \<mapsto> \<lparr>method = None, url = None, body = Some ''hi'', next = None\<rparr>],
      smq = Some (alice\<lparr>incoming :=
              \<lparr>Queue.running = True, size = 1, head = Some 5, tail = Some 5\<rparr>\<rparr>),
      joined = [], freed = []\<rparr>"

text \<open>
  The client with the timeout \<open>t\<close> whose incoming queue is empty, while the puller
  holds a received message that it has not pushed yet.
\<close>

definition alice_waiting :: "nat \<Rightarrow> world" where
  "alice_waiting t =
     \<lparr>mem = [5 \<mapsto> \<lparr>method = None, url = None, body = Some ''hi'', next = None\<rparr>],
      smq = Some (alice\<lparr>timeout := t\<rparr>), joined = [], freed = []\<rparr>"


section \<open>The queue keeps its list\<close>

lemma queue_push_not_running:
  "\<not> Queue.running q \<Longrightarrow> queue_push h q r = Inr (h, q)"
  by (simp add: queue_push_def)

lemma chain_allocated: "chain h p xs \<Longrightarrow> x \<in> set xs \<Longrightarrow> h x \<noteq> None"
  by (induction xs arbitrary: p) (auto split: option.splits)

lemma chain_update_other: "a \<notin> set xs \<Longrightarrow> chain (h(a := v)) p xs = chain h p xs"
  by (induction xs arbitrary: p) (auto split: option.splits)

lemma chain_unique: "chain h p xs \<Longrightarrow> chain h p ys \<Longrightarrow> xs = ys"
proof (induction xs arbitrary: p ys)
  case Nil
  then show ?case by (cases ys) auto
next
  case (Cons a xs)
  then show ?case by (cases ys) (auto split: option.splits)
qed

lemma chain_snoc:
  "chain h p xs \<Longrightarrow> xs \<noteq> [] \<Longrightarrow> distinct xs \<Longrightarrow> a \<notin> set xs \<Longrightarrow> h (last xs) = Some rt \<Longrightarrow>
   chain (h(a \<mapsto> ra\<lparr>next := None\<rparr>, last xs \<mapsto> rt\<lparr>next := Some a\<rparr>)) p (xs @ [a])"
proof (induction xs arbitrary: p)
  case Nil
  then show ?case by simp
next
  case (Cons x xs)
  show ?case
  proof (cases "xs = []")
    case True
    with Cons.prems show ?thesis by (auto split: option.splits)
  next
    case False
    with Cons show ?thesis by (auto split: option.splits)
  qed
qed

lemma same_requests_refl: "same_requests h h"
  by (simp add: same_requests_def)

lemma same_requests_trans: "same_requests h h1 \<Longrightarrow> same_requests h1 h2 \<Longrightarrow> same_requests h h2"
  by (simp add: same_requests_def)

lemma same_requests_link:
  "h a = Some ra \<Longrightarrow> same_requests h (h(a \<mapsto> ra\<lparr>next := p\<rparr>))"
  by (simp add: same_requests_def payload_def)

lemma same_requests_payload:
  assumes "same_requests h h'" and "h a = Some r"
  obtains r' where "h' a = Some r'" and "payload r' = payload r"
proof -
  from assms have "map_option payload (h' a) = Some (payload r)"
    by (simp add: same_requests_def)
  then show thesis using that by auto
qed

lemma same_requests_allocated: "same_requests h h' \<Longrightarrow> (h' a = None) = (h a = None)"
  by (metis same_requests_def map_option_is_None)

lemma queue_push_running:
  assumes abs: "queue_abs h q xs" and run: "Queue.running q"
    and alloc: "h a = Some ra" and fresh: "a \<notin> set xs"
  shows "\<exists>h' q'. queue_push h q (Some a) = Inr (h', q') \<and> queue_abs h' q' (xs @ [a]) \<and>
           Queue.running q' \<and> same_requests h h' \<and> h' a = Some (ra\<lparr>next := None\<rparr>)"
proof (cases "xs = []")
  case True
  with abs run alloc show ?thesis
    by (auto simp: queue_push_def queue_abs_def same_requests_link)
next
  case False
  let ?h1 = "h(a \<mapsto> ra\<lparr>next := None\<rparr>)"
  from abs False have tl: "tail q = Some (last xs)" and sz: "size q \<noteq> 0"
    and ch: "chain h (head q) xs" and dist: "distinct xs"
    by (auto simp: queue_abs_def)
  from False have "last xs \<in> set xs" by simp
  with ch obtain rt where rt: "h (last xs) = Some rt"
    using chain_allocated by fastforce
  from fresh \<open>last xs \<in> set xs\<close> have ne: "last xs \<noteq> a" by auto
  let ?h2 = "?h1(last xs \<mapsto> rt\<lparr>next := Some a\<rparr>)"
  have push: "queue_push h q (Some a) = Inr (?h2, q\<lparr>tail := Some a, size := size q + 1\<rparr>)"
    using run alloc tl sz rt ne by (simp add: queue_push_def)
  have "chain ?h2 (head q) (xs @ [a])"
    using chain_snoc [OF ch False dist fresh rt] .
  moreover have "same_requests h ?h2"
    using alloc rt ne by (simp add: same_requests_def payload_def)
  moreover have "?h2 a = Some (ra\<lparr>next := None\<rparr>)" using ne by simp
  ultimately show ?thesis
    using push abs fresh run by (simp add: queue_abs_def)
qed

lemma take_head_nonempty:
  assumes abs: "queue_abs h q (x # xs)"
  shows "\<exists>rx. h x = Some rx \<and>
           take_head h q =
             Inr (h(x \<mapsto> rx\<lparr>next := None\<rparr>),
                  q\<lparr>head := (if xs = [] then None else Some (hd xs)),
                    tail := (if xs = [] then None else tail q),
                    size := length xs\<rparr>, Some x) \<and>
           queue_abs (h(x \<mapsto> rx\<lparr>next := None\<rparr>))
             (q\<lparr>head := (if xs = [] then None else Some (hd xs)),
               tail := (if xs = [] then None else tail q),
               size := length xs\<rparr>) xs"
proof -
  from abs obtain rx where rx: "h x = Some rx" and hd: "head q = Some x"
    and ch: "chain h (next rx) xs" and nx: "x \<notin> set xs" and dist: "distinct xs"
    and sz: "size q = Suc (length xs)" and tl: "tail q = Some (last (x # xs))"
    by (auto simp: queue_abs_def split: option.splits)
  have nxt: "next rx = (if xs = [] then None else Some (hd xs))"
    using ch by (cases xs) auto
  have ch': "chain (h(x \<mapsto> rx\<lparr>next := None\<rparr>)) (next rx) xs"
    using ch nx by (simp add: chain_update_other)
  show ?thesis
    using rx hd sz tl nxt ch' dist
    by (auto simp: take_head_def queue_abs_def Let_def)
qed

lemma owned_call_same_requests:
  "same_requests h h' \<Longrightarrow> owned_call h' s c = owned_call h s c"
  by (cases c) (simp_all add: same_requests_allocated)

lemma owned_calls_same_requests:
  "same_requests h h' \<Longrightarrow> owned_calls h' s cs = owned_calls h s cs"
  by (induction cs arbitrary: s) (simp_all add: owned_call_same_requests)

lemma owned_wait_same_requests:
  "same_requests h h' \<Longrightarrow> owned_wait h' s t wakes = owned_wait h s t wakes"
  by (induction h s t wakes rule: owned_wait.induct)
     (simp_all add: owned_calls_same_requests)

lemma owned_ops_same_requests:
  "same_requests h h' \<Longrightarrow> owned_ops h' s ops = owned_ops h s ops"
proof (induction ops arbitrary: s)
  case Nil
  show ?case by simp
next
  case (Cons x ops)
  then show ?case
    by (cases x)
       (simp_all add: owned_call_same_requests owned_wait_same_requests del: owned_call.simps)
qed

lemma call_refines:
  assumes abs: "queue_abs h q xs" and own: "owned_call h (Queue.running q, xs) c"
  shows "\<exists>h' q' xs' e. call_step (h, q) c = Inr ((h', q'), e) \<and>
           spec_call (Queue.running q, xs) c = ((Queue.running q', xs'), e) \<and>
           queue_abs h' q' xs' \<and> same_requests h h'"
proof (cases c)
  case (Call_push a)
  show ?thesis
  proof (cases "Queue.running q")
    case True
    with own Call_push obtain ra where "h a = Some ra" and "a \<notin> set xs" by auto
    from queue_push_running [OF abs True this] True Call_push show ?thesis by auto
  next
    case False
    with abs Call_push show ?thesis
      by (auto simp: queue_push_def same_requests_refl)
  qed
next
  case Call_pop
  show ?thesis
  proof (cases xs)
    case Nil
    with abs Call_pop show ?thesis
      by (auto simp: queue_abs_def same_requests_refl)
  next
    case (Cons y ys)
    with abs have abs': "queue_abs h q (y # ys)" by simp
    then have sz: "size q \<noteq> 0" by (simp add: queue_abs_def)
    from take_head_nonempty [OF abs'] obtain ry where
      ry: "h y = Some ry" and
      pop: "take_head h q =
        Inr (h(y \<mapsto> ry\<lparr>next := None\<rparr>),
             q\<lparr>head := (if ys = [] then None else Some (hd ys)),
               tail := (if ys = [] then None else tail q),
               size := length ys\<rparr>, Some y)" and
      abs'': "queue_abs (h(y \<mapsto> ry\<lparr>next := None\<rparr>))
             (q\<lparr>head := (if ys = [] then None else Some (hd ys)),
               tail := (if ys = [] then None else tail q),
               size := length ys\<rparr>) ys"
      by blast
    from ry have "same_requests h (h(y \<mapsto> ry\<lparr>next := None\<rparr>))"
      by (rule same_requests_link)
    with pop abs'' sz Call_pop Cons show ?thesis by auto
  qed
next
  case Call_shutdown
  with abs show ?thesis
    by (auto simp: queue_shutdown_def queue_abs_def same_requests_refl)
qed

lemma calls_refines:
  assumes "queue_abs h q xs" and "owned_calls h (Queue.running q, xs) cs"
  shows "\<exists>h' q' xs' es. calls (h, q) cs = Inr ((h', q'), es) \<and>
           spec_calls (Queue.running q, xs) cs = ((Queue.running q', xs'), es) \<and>
           queue_abs h' q' xs' \<and> same_requests h h'"
  using assms
proof (induction cs arbitrary: h q xs)
  case Nil
  then show ?case by (auto simp: same_requests_refl)
next
  case (Cons c cs)
  from Cons.prems(2) have own1: "owned_call h (Queue.running q, xs) c" by simp
  from call_refines [OF Cons.prems(1) own1] obtain h1 q1 xs1 e where
    st: "call_step (h, q) c = Inr ((h1, q1), e)" and
    sp: "spec_call (Queue.running q, xs) c = ((Queue.running q1, xs1), e)" and
    abs1: "queue_abs h1 q1 xs1" and same1: "same_requests h h1"
    by blast
  from Cons.prems(2) sp have "owned_calls h (Queue.running q1, xs1) cs" by simp
  with same1 have own': "owned_calls h1 (Queue.running q1, xs1) cs"
    by (simp add: owned_calls_same_requests)
  from Cons.IH [OF abs1 own'] obtain h2 q2 xs2 es where
    "calls (h1, q1) cs = Inr ((h2, q2), es)"
    "spec_calls (Queue.running q1, xs1) cs = ((Queue.running q2, xs2), es)"
    "queue_abs h2 q2 xs2" "same_requests h1 h2"
    by blast
  with st sp same_requests_trans [OF same1] show ?case by auto
qed

lemma spec_wait_got: "spec_wait s t wakes = (s', es, True) \<Longrightarrow> snd s' \<noteq> []"
  by (induction s t wakes arbitrary: s' es rule: spec_wait.induct)
     (auto split: if_splits prod.splits)

lemma wait_refines:
  assumes "queue_abs h q xs" and "owned_wait h (Queue.running q, xs) t wakes"
  shows "\<exists>h' q' xs' es got. wait_produced (h, q) t wakes = Inr ((h', q'), es, got) \<and>
           spec_wait (Queue.running q, xs) t wakes = ((Queue.running q', xs'), es, got) \<and>
           queue_abs h' q' xs' \<and> same_requests h h'"
  using assms
proof (induction wakes arbitrary: h q xs)
  case Nil
  then show ?case by (auto simp: queue_abs_def same_requests_refl)
next
  case (Cons w wakes)
  obtain u cs where w: "w = (u, cs)" by (cases w)
  show ?case
  proof (cases "xs = []")
    case False
    with Cons.prems(1) have "size q \<noteq> 0" by (simp add: queue_abs_def)
    with False Cons.prems(1) w show ?thesis by (auto simp: same_requests_refl)
  next
    case True
    with Cons.prems(1) have sz: "size q = 0" by (simp add: queue_abs_def)
    from Cons.prems(2) True w have own: "owned_calls h (Queue.running q, xs) cs" by simp
    from calls_refines [OF Cons.prems(1) own] obtain h1 q1 xs1 es1 where
      cl: "calls (h, q) cs = Inr ((h1, q1), es1)" and
      sp: "spec_calls (Queue.running q, xs) cs = ((Queue.running q1, xs1), es1)" and
      abs1: "queue_abs h1 q1 xs1" and same1: "same_requests h h1"
      by blast
    show ?thesis
    proof (cases "u < t")
      case False
      with w sz True cl sp abs1 same1 show ?thesis by auto
    next
      case lt: True
      from Cons.prems(2) True w lt sp have "owned_wait h (Queue.running q1, xs1) t wakes"
        by simp
      with same1 have "owned_wait h1 (Queue.running q1, xs1) t wakes"
        by (simp add: owned_wait_same_requests)
      from Cons.IH [OF abs1 this] obtain h2 q2 xs2 es2 got where
        "wait_produced (h1, q1) t wakes = Inr ((h2, q2), es2, got)"
        "spec_wait (Queue.running q1, xs1) t wakes = ((Queue.running q2, xs2), es2, got)"
        "queue_abs h2 q2 xs2" "same_requests h1 h2"
        by blast
      with w sz True cl sp lt same_requests_trans [OF same1] show ?thesis by auto
    qed
  qed
qed

lemma pop_refines:
  assumes abs: "queue_abs h q xs" and own: "owned_wait h (Queue.running q, xs) t wakes"
  shows "\<exists>h' q' xs' r es. queue_pop h q t wakes = Inr ((h', q', r), es) \<and>
           spec_pop (Queue.running q, xs) t wakes = ((Queue.running q', xs'), es @ [Returned r]) \<and>
           queue_abs h' q' xs' \<and> same_requests h h' \<and>
           (case r of None \<Rightarrow> True | Some a \<Rightarrow> a \<notin> set xs' \<and> h' a \<noteq> None)"
proof -
  from wait_refines [OF abs own] obtain h1 q1 xs1 es got where
    wt: "wait_produced (h, q) t wakes = Inr ((h1, q1), es, got)" and
    sp: "spec_wait (Queue.running q, xs) t wakes = ((Queue.running q1, xs1), es, got)" and
    abs1: "queue_abs h1 q1 xs1" and same1: "same_requests h h1"
    by blast
  show ?thesis
  proof (cases got)
    case False
    with wt sp abs1 same1 show ?thesis by (auto simp: queue_pop_def spec_pop_def)
  next
    case True
    with sp have "xs1 \<noteq> []" using spec_wait_got by fastforce
    then obtain y ys where xs1: "xs1 = y # ys" by (cases xs1) auto
    with abs1 have abs1': "queue_abs h1 q1 (y # ys)" by simp
    from take_head_nonempty [OF abs1'] obtain ry where
      ry: "h1 y = Some ry" and
      pop: "take_head h1 q1 =
        Inr (h1(y \<mapsto> ry\<lparr>next := None\<rparr>),
             q1\<lparr>head := (if ys = [] then None else Some (hd ys)),
               tail := (if ys = [] then None else tail q1),
               size := length ys\<rparr>, Some y)" and
      abs2: "queue_abs (h1(y \<mapsto> ry\<lparr>next := None\<rparr>))
             (q1\<lparr>head := (if ys = [] then None else Some (hd ys)),
               tail := (if ys = [] then None else tail q1),
               size := length ys\<rparr>) ys"
      by blast
    from ry have "same_requests h1 (h1(y \<mapsto> ry\<lparr>next := None\<rparr>))"
      by (rule same_requests_link)
    with same1 have "same_requests h (h1(y \<mapsto> ry\<lparr>next := None\<rparr>))"
      by (rule same_requests_trans)
    moreover from abs1' have "y \<notin> set ys" by (simp add: queue_abs_def)
    ultimately show ?thesis using True wt sp pop abs2 xs1
      by (auto simp: queue_pop_def spec_pop_def)
  qed
qed

lemma step_refines:
  assumes abs: "queue_abs h q xs" and own: "owned_ops h (Queue.running q, xs) [x]"
  shows "\<exists>h' q' xs' es. step (h, q) x = Inr ((h', q'), es) \<and>
           spec_step (Queue.running q, xs) x = ((Queue.running q', xs'), es) \<and>
           queue_abs h' q' xs' \<and> same_requests h h'"
proof (cases x)
  case (Push a)
  with own have "owned_call h (Queue.running q, xs) (Call_push a)" by simp
  from call_refines [OF abs this] obtain h' q' xs' e where
    "call_step (h, q) (Call_push a) = Inr ((h', q'), e)"
    "spec_call (Queue.running q, xs) (Call_push a) = ((Queue.running q', xs'), e)"
    "queue_abs h' q' xs'" "same_requests h h'"
    by blast
  with Push show ?thesis by simp
next
  case (Pop t wakes)
  with own have "owned_wait h (Queue.running q, xs) t wakes" by simp
  from pop_refines [OF abs this] Pop show ?thesis by auto
next
  case Shutdown
  have "owned_call h (Queue.running q, xs) Call_shutdown" by simp
  from call_refines [OF abs this] obtain h' q' xs' e where
    "call_step (h, q) Call_shutdown = Inr ((h', q'), e)"
    "spec_call (Queue.running q, xs) Call_shutdown = ((Queue.running q', xs'), e)"
    "queue_abs h' q' xs'" "same_requests h h'"
    by blast
  with Shutdown show ?thesis by simp
qed

lemma run_refines:
  assumes "queue_abs h q xs" and "owned_ops h (Queue.running q, xs) ops"
  shows "\<exists>h' q' xs' es. run (h, q) ops = Inr ((h', q'), es) \<and>
           spec_run (Queue.running q, xs) ops = ((Queue.running q', xs'), es) \<and>
           queue_abs h' q' xs' \<and> same_requests h h'"
  using assms
proof (induction ops arbitrary: h q xs)
  case Nil
  then show ?case by (auto simp: same_requests_refl)
next
  case (Cons x ops)
  from Cons.prems have own1: "owned_ops h (Queue.running q, xs) [x]"
    by (auto split: queue_op.splits)
  from step_refines [OF Cons.prems(1) own1] obtain h1 q1 xs1 es1 where
    st: "step (h, q) x = Inr ((h1, q1), es1)" and
    sp: "spec_step (Queue.running q, xs) x = ((Queue.running q1, xs1), es1)" and
    abs1: "queue_abs h1 q1 xs1" and same1: "same_requests h h1"
    by blast
  from Cons.prems(2) sp have "owned_ops h (Queue.running q1, xs1) ops" by simp
  with same1 have own': "owned_ops h1 (Queue.running q1, xs1) ops"
    by (simp add: owned_ops_same_requests)
  from Cons.IH [OF abs1 own'] obtain h2 q2 xs2 es2 where
    rn: "run (h1, q1) ops = Inr ((h2, q2), es2)" and
    spr: "spec_run (Queue.running q1, xs1) ops = ((Queue.running q2, xs2), es2)" and
    abs2: "queue_abs h2 q2 xs2" and same2: "same_requests h1 h2"
    by blast
  from st rn sp spr abs2 same_requests_trans [OF same1 same2] show ?case by auto
qed

section \<open>The order and the number of the requests\<close>

lemma returned_append: "returned (es1 @ es2) = returned es1 @ returned es2"
  by (simp add: returned_def)

lemma sent_append: "sent (es1 @ es2) = sent es1 @ sent es2"
  by (simp add: sent_def)

lemma spec_call_count:
  "spec_call (r, xs) c = ((r', xs'), e) \<Longrightarrow>
   length xs' + length (returned [e]) = length xs + length (sent [e])"
  by (cases c) (auto simp: returned_def sent_def split: if_splits list.splits)

lemma spec_calls_count:
  "spec_calls (r, xs) cs = ((r', xs'), es) \<Longrightarrow>
   length xs' + length (returned es) = length xs + length (sent es)"
proof (induction cs arbitrary: r xs es)
  case Nil
  then show ?case by (simp add: returned_def sent_def)
next
  case (Cons c cs)
  obtain r1 xs1 e where sp: "spec_call (r, xs) c = ((r1, xs1), e)"
    by (metis prod.exhaust)
  obtain es1 where spr: "spec_calls (r1, xs1) cs = ((r', xs'), es1)" and es: "es = [e] @ es1"
    using Cons.prems sp by (auto split: prod.splits)
  from Cons.IH [OF spr] spec_call_count [OF sp] es show ?case
    by (simp only: returned_append sent_append length_append)
qed

lemma spec_wait_count:
  "spec_wait (r, xs) t wakes = ((r', xs'), es, got) \<Longrightarrow>
   length xs' + length (returned es) = length xs + length (sent es)"
proof (induction wakes arbitrary: r xs es)
  case Nil
  then show ?case by (simp add: returned_def sent_def)
next
  case (Cons w wakes)
  obtain u cs where w: "w = (u, cs)" by (cases w)
  show ?case
  proof (cases "xs = []")
    case False
    with Cons.prems w show ?thesis by (simp add: returned_def sent_def)
  next
    case True
    obtain r1 xs1 es1 where sp: "spec_calls (r, xs) cs = ((r1, xs1), es1)"
      by (metis prod.exhaust)
    note c1 = spec_calls_count [OF sp]
    show ?thesis
    proof (cases "u < t")
      case False
      with Cons.prems w True sp c1 show ?thesis by simp
    next
      case lt: True
      obtain es2 where sw: "spec_wait (r1, xs1) t wakes = ((r', xs'), es2, got)"
        and es: "es = es1 @ es2"
        using Cons.prems w True sp lt by (auto split: prod.splits)
      from Cons.IH [OF sw] c1 es show ?thesis
        by (simp only: returned_append sent_append length_append)
    qed
  qed
qed

lemma spec_pop_count:
  assumes "spec_pop (r, xs) t wakes = ((r', xs'), es)"
  shows "length xs' + length (returned es) = length xs + length (sent es)"
proof -
  obtain r1 xs1 es1 got where sw: "spec_wait (r, xs) t wakes = ((r1, xs1), es1, got)"
    by (metis prod.exhaust)
  note c1 = spec_wait_count [OF sw]
  show ?thesis
  proof (cases got)
    case False
    with assms sw c1 show ?thesis
      by (auto simp: spec_pop_def returned_def sent_def)
  next
    case True
    obtain e where sp: "spec_call (r1, xs1) Call_pop = ((r', xs'), e)" and es: "es = es1 @ [e]"
      using assms sw True by (auto simp: spec_pop_def split: prod.splits)
    from spec_call_count [OF sp] c1 es show ?thesis
      by (simp only: returned_append sent_append length_append)
  qed
qed

lemma spec_step_count:
  assumes "spec_step (r, xs) x = ((r', xs'), es)"
  shows "length xs' + length (returned es) = length xs + length (sent es)"
proof (cases x)
  case (Push a)
  with assms obtain e where "spec_call (r, xs) (Call_push a) = ((r', xs'), e)" "es = [e]"
    by (auto split: prod.splits)
  with spec_call_count show ?thesis by blast
next
  case (Pop t wakes)
  with assms spec_pop_count show ?thesis by simp
next
  case Shutdown
  with assms obtain e where "spec_call (r, xs) Call_shutdown = ((r', xs'), e)" "es = [e]"
    by (auto split: prod.splits)
  with spec_call_count show ?thesis by blast
qed

lemma spec_run_count:
  "spec_run (r, xs) ops = ((r', xs'), es) \<Longrightarrow>
   length xs' + length (returned es) = length xs + accepted es"
proof (induction ops arbitrary: r xs es)
  case Nil
  then show ?case by (auto simp: returned_def accepted_def sent_def)
next
  case (Cons x ops)
  obtain r1 xs1 es1 where sp: "spec_step (r, xs) x = ((r1, xs1), es1)"
    by (metis prod.exhaust)
  obtain es2 where spr: "spec_run (r1, xs1) ops = ((r', xs'), es2)" and es: "es = es1 @ es2"
    using Cons.prems sp by (auto split: prod.splits)
  from Cons.IH [OF spr] spec_step_count [OF sp] es show ?case
    by (simp add: returned_append sent_append accepted_def)
qed

lemma spec_call_order:
  "spec_call (r, xs) c = ((r', xs'), e) \<Longrightarrow> returned [e] @ xs' = xs @ sent [e]"
  by (cases c) (auto simp: returned_def sent_def split: if_splits list.splits)

lemma order_append:
  "returned es1 @ xs1 = xs @ sent es1 \<Longrightarrow> returned es2 @ xs2 = xs1 @ sent es2 \<Longrightarrow>
   returned (es1 @ es2) @ xs2 = xs @ sent (es1 @ es2)"
  by (simp add: returned_append sent_append)

lemma spec_calls_order:
  "spec_calls (r, xs) cs = ((r', xs'), es) \<Longrightarrow> returned es @ xs' = xs @ sent es"
proof (induction cs arbitrary: r xs es)
  case Nil
  then show ?case by (simp add: returned_def sent_def)
next
  case (Cons c cs)
  obtain r1 xs1 e where sp: "spec_call (r, xs) c = ((r1, xs1), e)"
    by (metis prod.exhaust)
  obtain es1 where spr: "spec_calls (r1, xs1) cs = ((r', xs'), es1)" and es: "es = [e] @ es1"
    using Cons.prems sp by (auto split: prod.splits)
  from order_append [OF spec_call_order [OF sp] Cons.IH [OF spr]] es show ?case by simp
qed

lemma spec_wait_order:
  "spec_wait (r, xs) t wakes = ((r', xs'), es, got) \<Longrightarrow> returned es @ xs' = xs @ sent es"
proof (induction wakes arbitrary: r xs es)
  case Nil
  then show ?case by (simp add: returned_def sent_def)
next
  case (Cons w wakes)
  obtain u cs where w: "w = (u, cs)" by (cases w)
  show ?case
  proof (cases "xs = []")
    case False
    with Cons.prems w show ?thesis by (simp add: returned_def sent_def)
  next
    case True
    obtain r1 xs1 es1 where sp: "spec_calls (r, xs) cs = ((r1, xs1), es1)"
      by (metis prod.exhaust)
    note c1 = spec_calls_order [OF sp]
    show ?thesis
    proof (cases "u < t")
      case False
      with Cons.prems w True sp have "xs' = xs1" "es = es1" by simp_all
      with c1 show ?thesis by simp
    next
      case lt: True
      obtain es2 where sw: "spec_wait (r1, xs1) t wakes = ((r', xs'), es2, got)"
        and es: "es = es1 @ es2"
        using Cons.prems w True sp lt by (auto split: prod.splits)
      from order_append [OF c1 Cons.IH [OF sw]] es show ?thesis by simp
    qed
  qed
qed

lemma spec_pop_order:
  assumes "spec_pop (r, xs) t wakes = ((r', xs'), es)"
  shows "returned es @ xs' = xs @ sent es"
proof -
  obtain r1 xs1 es1 got where sw: "spec_wait (r, xs) t wakes = ((r1, xs1), es1, got)"
    by (metis prod.exhaust)
  note c1 = spec_wait_order [OF sw]
  show ?thesis
  proof (cases got)
    case False
    with assms sw have "xs' = xs1" "es = es1 @ [Returned None]"
      by (simp_all add: spec_pop_def)
    moreover have "returned [Returned None] @ xs1 = xs1 @ sent [Returned None]"
      by (simp add: returned_def sent_def)
    ultimately show ?thesis using order_append [OF c1] by simp
  next
    case True
    obtain e where sp: "spec_call (r1, xs1) Call_pop = ((r', xs'), e)" and es: "es = es1 @ [e]"
      using assms sw True by (auto simp: spec_pop_def split: prod.splits)
    from order_append [OF c1 spec_call_order [OF sp]] es show ?thesis by simp
  qed
qed

lemma spec_step_order:
  assumes "spec_step (r, xs) x = ((r', xs'), es)"
  shows "returned es @ xs' = xs @ sent es"
proof (cases x)
  case (Push a)
  with assms obtain e where "spec_call (r, xs) (Call_push a) = ((r', xs'), e)" "es = [e]"
    by (auto split: prod.splits)
  with spec_call_order show ?thesis by blast
next
  case (Pop t wakes)
  with assms spec_pop_order show ?thesis by simp
next
  case Shutdown
  with assms obtain e where "spec_call (r, xs) Call_shutdown = ((r', xs'), e)" "es = [e]"
    by (auto split: prod.splits)
  with spec_call_order show ?thesis by blast
qed

lemma spec_run_order:
  "spec_run (r, xs) ops = ((r', xs'), es) \<Longrightarrow> returned es @ xs' = xs @ sent es"
proof (induction ops arbitrary: r xs es)
  case Nil
  then show ?case by (auto simp: returned_def sent_def)
next
  case (Cons x ops)
  obtain r1 xs1 es1 where sp: "spec_step (r, xs) x = ((r1, xs1), es1)"
    by (metis prod.exhaust)
  obtain es2 where spr: "spec_run (r1, xs1) ops = ((r', xs'), es2)" and es: "es = es1 @ es2"
    using Cons.prems sp by (auto split: prod.splits)
  from order_append [OF spec_step_order [OF sp] Cons.IH [OF spr]] es show ?case by simp
qed

lemma spec_wait_quiet:
  "list_all (\<lambda>(u, cs). cs = []) wakes \<Longrightarrow> spec_wait s t wakes = (s, [], snd s \<noteq> [])"
  by (induction wakes) auto

lemma spec_run_quiet:
  "quiet ops \<Longrightarrow> Shutdown \<notin> set ops \<Longrightarrow> spec_run (True, xs) ops = ((r', xs'), es) \<Longrightarrow>
   sent es = pushed ops"
proof (induction ops arbitrary: xs es)
  case Nil
  then show ?case by (auto simp: pushed_def sent_def)
next
  case (Cons x ops)
  obtain r1 xs1 es1 where sp: "spec_step (True, xs) x = ((r1, xs1), es1)"
    by (metis prod.exhaust)
  have st: "r1 \<and> sent es1 = pushed [x]"
  proof (cases x)
    case (Push a)
    with sp show ?thesis by (auto simp: pushed_def sent_def)
  next
    case (Pop t wakes)
    with Cons.prems(1) have "list_all (\<lambda>(u, cs). cs = []) wakes" by (simp add: quiet_def)
    from spec_wait_quiet [OF this, of "(True, xs)" t] sp Pop show ?thesis
      by (cases xs) (auto simp: spec_pop_def pushed_def sent_def)
  next
    case Shutdown
    with Cons.prems(2) show ?thesis by simp
  qed
  obtain es2 where spr: "spec_run (True, xs1) ops = ((r', xs'), es2)" and es: "es = es1 @ es2"
    using Cons.prems(3) sp st by (auto split: prod.splits)
  from Cons.prems(1,2) have "quiet ops" "Shutdown \<notin> set ops" by (simp_all add: quiet_def)
  from Cons.IH [OF this spr] have "sent es2 = pushed ops" .
  with st es show ?case by (simp add: sent_append pushed_def)
qed

section \<open>Properties of the queue\<close>

lemma queue_create_abs: "queue_create True = Some q \<Longrightarrow> queue_abs h q [] \<and> Queue.running q"
  by (auto simp: queue_create_def queue_abs_def)

lemma queue_abs_emptiness:
  "queue_abs h q xs \<Longrightarrow>
   (size q = 0 \<longrightarrow> head q = None \<and> tail q = None) \<and>
   (size q \<noteq> 0 \<longrightarrow> head q \<noteq> None \<and> tail q \<noteq> None)"
  by (cases xs) (auto simp: queue_abs_def)

lemma queue_abs_shutdown: "queue_abs h (queue_shutdown q) xs = queue_abs h q xs"
  by (simp add: queue_abs_def queue_shutdown_def)

lemma wait_produced_nonempty:
  "size q \<noteq> 0 \<Longrightarrow> wait_produced (h, q) t wakes = Inr ((h, q), [], True)"
  by (cases wakes) auto

lemma queue_pop_nonempty:
  assumes abs: "queue_abs h q (x # xs)"
  shows "\<exists>rx. h x = Some rx \<and>
           queue_pop h q t wakes =
             Inr ((h(x \<mapsto> rx\<lparr>next := None\<rparr>),
                   q\<lparr>head := (if xs = [] then None else Some (hd xs)),
                     tail := (if xs = [] then None else tail q),
                     size := length xs\<rparr>, Some x), []) \<and>
           queue_abs (h(x \<mapsto> rx\<lparr>next := None\<rparr>))
             (q\<lparr>head := (if xs = [] then None else Some (hd xs)),
               tail := (if xs = [] then None else tail q),
               size := length xs\<rparr>) xs"
proof -
  from abs have "size q \<noteq> 0" by (simp add: queue_abs_def)
  then have "wait_produced (h, q) t wakes = Inr ((h, q), [], True)"
    by (rule wait_produced_nonempty)
  with take_head_nonempty [OF abs] show ?thesis by (auto simp: queue_pop_def)
qed

lemma take_head_running:
  "take_head h q = Inr (h', q', r) \<Longrightarrow> Queue.running q' = Queue.running q"
  by (auto simp: take_head_def Let_def split: option.splits if_splits)

lemma call_step_stays_closed:
  "call_step (h, q) c = Inr ((h', q'), e) \<Longrightarrow> \<not> Queue.running q \<Longrightarrow> \<not> Queue.running q'"
  by (cases c)
     (auto simp: queue_push_def queue_shutdown_def dest: take_head_running
        split: sum.splits if_splits)

lemma calls_stay_closed:
  "calls (h, q) cs = Inr ((h', q'), es) \<Longrightarrow> \<not> Queue.running q \<Longrightarrow> \<not> Queue.running q'"
proof (induction cs arbitrary: h q es)
  case Nil
  then show ?case by simp
next
  case (Cons c cs)
  from Cons.prems(1) obtain h1 q1 e es1 where
    st: "call_step (h, q) c = Inr ((h1, q1), e)" and rn: "calls (h1, q1) cs = Inr ((h', q'), es1)"
    by (auto split: sum.splits)
  from call_step_stays_closed [OF st Cons.prems(2)] Cons.IH [OF rn] show ?case by blast
qed

lemma wait_stays_closed:
  "wait_produced (h, q) t wakes = Inr ((h', q'), es, got) \<Longrightarrow> \<not> Queue.running q \<Longrightarrow>
   \<not> Queue.running q'"
proof (induction wakes arbitrary: h q es)
  case Nil
  then show ?case by simp
next
  case (Cons w wakes)
  obtain u cs where w: "w = (u, cs)" by (cases w)
  show ?case
  proof (cases "size q \<noteq> 0")
    case True
    with Cons.prems w show ?thesis by simp
  next
    case False
    with Cons.prems(1) w obtain h1 q1 es1 where
      cl: "calls (h, q) cs = Inr ((h1, q1), es1)"
      by (auto split: sum.splits)
    from calls_stay_closed [OF cl Cons.prems(2)] have c1: "\<not> Queue.running q1" .
    show ?thesis
    proof (cases "u < t")
      case False
      with Cons.prems(1) w \<open>\<not> size q \<noteq> 0\<close> cl c1 show ?thesis by simp
    next
      case True
      with Cons.prems(1) w \<open>\<not> size q \<noteq> 0\<close> cl obtain es2 where
        "wait_produced (h1, q1) t wakes = Inr ((h', q'), es2, got)"
        by (auto split: sum.splits)
      from Cons.IH [OF this c1] show ?thesis .
    qed
  qed
qed

lemma step_stays_closed:
  assumes "step (h, q) x = Inr ((h', q'), es)" and "\<not> Queue.running q"
  shows "\<not> Queue.running q'"
proof (cases x)
  case (Push a)
  with assms(1) obtain e where "call_step (h, q) (Call_push a) = Inr ((h', q'), e)"
    by (auto split: sum.splits)
  from call_step_stays_closed [OF this assms(2)] show ?thesis .
next
  case (Pop t wakes)
  with assms(1) obtain r es1 where pop: "queue_pop h q t wakes = Inr ((h', q', r), es1)"
    by (auto split: sum.splits)
  then obtain h1 q1 got where wt: "wait_produced (h, q) t wakes = Inr ((h1, q1), es1, got)"
    and fin: "\<not> got \<and> q' = q1 \<or> got \<and> take_head h1 q1 = Inr (h', q', r)"
    by (auto simp: queue_pop_def split: sum.splits if_splits)
  from wait_stays_closed [OF wt assms(2)] fin show ?thesis
    by (auto dest: take_head_running)
next
  case Shutdown
  with assms(1) show ?thesis by (auto simp: queue_shutdown_def)
qed

lemma run_stays_closed:
  "run (h, q) ops = Inr ((h', q'), es) \<Longrightarrow> \<not> Queue.running q \<Longrightarrow> \<not> Queue.running q'"
proof (induction ops arbitrary: h q es)
  case Nil
  then show ?case by simp
next
  case (Cons x ops)
  from Cons.prems(1) obtain h1 q1 es1 es2 where
    st: "step (h, q) x = Inr ((h1, q1), es1)" and rn: "run (h1, q1) ops = Inr ((h', q'), es2)"
    by (auto split: sum.splits)
  from step_stays_closed [OF st Cons.prems(2)] Cons.IH [OF rn] show ?case by blast
qed

text \<open>
  C2. A push onto a queue on which shutdown has been called changes nothing: the
  heap (so also the pushed request and its link) and the queue (running flag, size,
  head, tail) are returned as they were, whatever the pointer \<open>r\<close> is. The same holds
  for every later push, after any further calls on the queue, whatever other threads
  do during the waits of its pops.
\<close>
theorem push_after_shutdown:
  "queue_push h (queue_shutdown q) r = Inr (h, queue_shutdown q) \<and>
   (\<forall>ops h' q' es. run (h, queue_shutdown q) ops = Inr ((h', q'), es) \<longrightarrow>
      queue_push h' q' r = Inr (h', q'))"
proof -
  have "\<not> Queue.running (queue_shutdown q)" by (simp add: queue_shutdown_def)
  then show ?thesis using run_stays_closed by (auto simp: queue_push_not_running)
qed

lemma pops_drain:
  "queue_abs h q xs \<Longrightarrow> length args = length xs \<Longrightarrow>
   \<exists>h' q'. run (h, q) (map (\<lambda>(t, ws). Pop t ws) args) =
              Inr ((h', q'), map (\<lambda>x. Returned (Some x)) xs) \<and>
           queue_abs h' q' [] \<and> Queue.running q' = Queue.running q"
proof (induction xs arbitrary: h q args)
  case Nil
  then show ?case by simp
next
  case (Cons x xs)
  from Cons.prems(2) obtain t ws args' where args: "args = (t, ws) # args'"
    and len: "length args' = length xs"
    by (cases args) auto
  from queue_pop_nonempty [OF Cons.prems(1), of t ws] obtain h1 q1 where
    pop: "queue_pop h q t ws = Inr ((h1, q1, Some x), [])" and abs1: "queue_abs h1 q1 xs"
    and r1: "Queue.running q1 = Queue.running q"
    by auto
  from Cons.IH [OF abs1 len] obtain h' q' where
    "run (h1, q1) (map (\<lambda>(t, ws). Pop t ws) args') =
       Inr ((h', q'), map (\<lambda>x. Returned (Some x)) xs)" and "queue_abs h' q' []"
    and "Queue.running q' = Queue.running q1"
    by blast
  with pop args r1 show ?case by simp
qed

lemma closed_empty_call:
  "\<not> Queue.running q \<Longrightarrow> size q = 0 \<Longrightarrow>
   \<exists>e. call_step (h, q) c = Inr ((h, q), e) \<and> sent [e] = [] \<and> returned [e] = []"
  by (cases c) (auto simp: queue_push_def queue_shutdown_def sent_def returned_def)

lemma closed_empty_calls:
  "\<not> Queue.running q \<Longrightarrow> size q = 0 \<Longrightarrow>
   \<exists>es. calls (h, q) cs = Inr ((h, q), es) \<and> sent es = [] \<and> returned es = []"
proof (induction cs)
  case Nil
  show ?case by (simp add: sent_def returned_def)
next
  case (Cons c cs)
  from closed_empty_call [OF Cons.prems, of h c] obtain e where
    "call_step (h, q) c = Inr ((h, q), e)" "sent [e] = []" "returned [e] = []"
    by blast
  moreover from Cons.IH [OF Cons.prems] obtain es where
    "calls (h, q) cs = Inr ((h, q), es)" "sent es = []" "returned es = []"
    by blast
  ultimately show ?case by (simp add: sent_def returned_def)
qed

lemma closed_empty_wait:
  "\<not> Queue.running q \<Longrightarrow> size q = 0 \<Longrightarrow>
   \<exists>es. wait_produced (h, q) t wakes = Inr ((h, q), es, False) \<and>
        sent es = [] \<and> returned es = []"
proof (induction wakes)
  case Nil
  then show ?case by (simp add: sent_def returned_def)
next
  case (Cons w wakes)
  obtain u cs where w: "w = (u, cs)" by (cases w)
  from closed_empty_calls [OF Cons.prems, of h cs] obtain es1 where
    "calls (h, q) cs = Inr ((h, q), es1)" "sent es1 = []" "returned es1 = []"
    by blast
  moreover from Cons.IH [OF Cons.prems] obtain es2 where
    "wait_produced (h, q) t wakes = Inr ((h, q), es2, False)" "sent es2 = []" "returned es2 = []"
    by blast
  ultimately show ?case using w Cons.prems(2) by (simp add: sent_append returned_append)
qed

lemma queue_pop_closed_empty:
  assumes "\<not> Queue.running q" and "size q = 0"
  shows "\<exists>es. queue_pop h q t wakes = Inr ((h, q, None), es) \<and> sent es = [] \<and> returned es = []"
  using closed_empty_wait [OF assms, of h t wakes] by (auto simp: queue_pop_def)

text \<open>
  C3. A queue that holds the requests \<open>xs\<close> when it is shut down: if \<open>xs\<close> is not
  empty, a pop returns the request at the head, without a wait; \<open>length xs\<close> pops
  (whatever their timeouts and wakes) return the requests of \<open>xs\<close> in order; and a
  pop on the queue they leave returns the null pointer and changes nothing, whatever
  other threads call during its wait: none of their pushes is accepted and none of
  their pops returns a request.
\<close>
theorem pop_drains_after_shutdown:
  assumes "queue_abs h q xs" and "length args = length xs"
  shows "(xs \<noteq> [] \<longrightarrow>
           (\<exists>h' q'. queue_pop h (queue_shutdown q) t wakes = Inr ((h', q', Some (hd xs)), []))) \<and>
         (\<exists>h' q'. run (h, queue_shutdown q) (map (\<lambda>(t, ws). Pop t ws) args) =
                    Inr ((h', q'), map (\<lambda>x. Returned (Some x)) xs) \<and>
                  (\<exists>es. queue_pop h' q' t wakes = Inr ((h', q', None), es) \<and>
                     sent es = [] \<and> returned es = []))"
proof -
  from assms(1) have abs: "queue_abs h (queue_shutdown q) xs"
    by (simp add: queue_abs_shutdown)
  have first: "xs \<noteq> [] \<longrightarrow>
      (\<exists>h' q'. queue_pop h (queue_shutdown q) t wakes = Inr ((h', q', Some (hd xs)), []))"
  proof
    assume "xs \<noteq> []"
    then obtain y ys where "xs = y # ys" by (cases xs) auto
    with abs queue_pop_nonempty [of h "queue_shutdown q" y ys t wakes] show
      "\<exists>h' q'. queue_pop h (queue_shutdown q) t wakes = Inr ((h', q', Some (hd xs)), [])"
      by auto
  qed
  from pops_drain [OF abs assms(2)] obtain h' q' where
    rn: "run (h, queue_shutdown q) (map (\<lambda>(t, ws). Pop t ws) args) =
       Inr ((h', q'), map (\<lambda>x. Returned (Some x)) xs)" and e: "queue_abs h' q' []"
    and r: "Queue.running q' = Queue.running (queue_shutdown q)"
    by blast
  from r have "\<not> Queue.running q'" by (simp add: queue_shutdown_def)
  moreover from e have "size q' = 0" by (simp add: queue_abs_def)
  ultimately have "\<exists>es. queue_pop h' q' t wakes = Inr ((h', q', None), es) \<and>
      sent es = [] \<and> returned es = []"
    by (rule queue_pop_closed_empty)
  with first rn show ?thesis by blast
qed

text \<open>
  C4. On an empty running queue, take any interleaving \<open>ops\<close> of the pushes of one
  producer and the pops of one consumer (no shutdown, no pop of another thread; every
  pushed request allocated and not in the queue when pushed); the producer may push
  while the consumer waits. No call faults; the requests the consumer has received,
  followed by those still in the queue, are the pushed requests in push order; so
  once it has received as many requests as were pushed, it has received exactly
  those, in that order. When no push falls into a wait, the pushed requests are the
  pushes the sequence lists.
\<close>
theorem queue_fifo:
  assumes "queue_abs h q []" and "Queue.running q" and "one_consumer ops"
    and "owned_ops h (True, []) ops"
  shows "\<exists>h' q' xs' es. run (h, q) ops = Inr ((h', q'), es) \<and> queue_abs h' q' xs' \<and>
           returned es @ xs' = sent es \<and>
           (length (returned es) = length (sent es) \<longrightarrow> returned es = sent es) \<and>
           (quiet ops \<longrightarrow> sent es = pushed ops)"
proof -
  from assms(2,4) have "owned_ops h (Queue.running q, []) ops" by simp
  from run_refines [OF assms(1) this] assms(2) obtain h' q' xs' es where
    rn: "run (h, q) ops = Inr ((h', q'), es)" and
    sp: "spec_run (True, []) ops = ((Queue.running q', xs'), es)" and
    abs: "queue_abs h' q' xs'"
    by auto
  from spec_run_order [OF sp] have eq: "returned es @ xs' = sent es" by simp
  then have "length (returned es) = length (sent es) \<longrightarrow> returned es = sent es"
    by (metis append_eq_append_conv append_Nil2)
  moreover have "quiet ops \<longrightarrow> sent es = pushed ops"
  proof
    assume "quiet ops"
    moreover from assms(3) have "Shutdown \<notin> set ops"
      by (auto simp: one_consumer_def list_all_iff)
    ultimately show "sent es = pushed ops" using sp by (rule spec_run_quiet)
  qed
  ultimately show ?thesis using rn abs eq by blast
qed

text \<open>
  C5. After any sequence of pushes, pops and shutdowns on a freshly created queue,
  with any calls of other threads during the waits of the pops (every request pushed
  onto the running queue allocated and not in the queue at that moment), no call has
  faulted, \<open>size\<close> is the number of pushes made while the queue was running minus
  the number of pops that returned a request, and it is the number of requests on
  the chain of \<open>next\<close> links from \<open>head\<close>.
\<close>
theorem size_coherence:
  assumes "queue_create True = Some q0" and "owned_ops h (True, []) ops"
  shows "\<exists>h' q' es xs'. run (h, q0) ops = Inr ((h', q'), es) \<and>
           int (size q') = int (accepted es) - int (length (returned es)) \<and>
           chain h' (head q') xs' \<and> length xs' = size q'"
proof -
  from queue_create_abs [OF assms(1)] have abs0: "queue_abs h q0 []" and r0: "Queue.running q0"
    by auto
  from r0 assms(2) have "owned_ops h (Queue.running q0, []) ops" by simp
  from run_refines [OF abs0 this] r0 obtain h' q' xs' es where
    rn: "run (h, q0) ops = Inr ((h', q'), es)" and
    sp: "spec_run (True, []) ops = ((Queue.running q', xs'), es)" and
    abs: "queue_abs h' q' xs'"
    by auto
  from spec_run_count [OF sp] have "length xs' + length (returned es) = accepted es" by simp
  moreover from abs have "chain h' (head q') xs'" and "length xs' = size q'"
    by (auto simp: queue_abs_def)
  ultimately show ?thesis using rn
    by (intro exI [of _ h'] exI [of _ q'] exI [of _ es] exI [of _ xs']) auto
qed

text \<open>
  C9. After any sequence of pushes, pops and shutdowns on a freshly created queue,
  with any calls of other threads during the waits of the pops (under the same
  ownership rule), \<open>size\<close> is 0 exactly when \<open>head\<close> and \<open>tail\<close> are both null, and
  when \<open>size\<close> is not 0 neither of them is null. The empty sequence is the created
  queue itself, and every state on the way is the end of a shorter sequence. In
  particular a pop of the last request returns it at once and leaves \<open>size\<close> 0 with
  \<open>head\<close> and \<open>tail\<close> null.
\<close>
theorem emptiness_invariant:
  assumes "queue_create True = Some q0" and "owned_ops h (True, []) ops"
  shows "\<exists>h' q' es. run (h, q0) ops = Inr ((h', q'), es) \<and>
           (size q' = 0 \<longleftrightarrow> head q' = None \<and> tail q' = None) \<and>
           (size q' = 0 \<or> (head q' \<noteq> None \<and> tail q' \<noteq> None)) \<and>
           (size q' = 1 \<longrightarrow>
              (\<exists>h2 q2 r. queue_pop h' q' t wakes = Inr ((h2, q2, r), []) \<and> r = head q' \<and>
                 size q2 = 0 \<and> head q2 = None \<and> tail q2 = None))"
proof -
  from queue_create_abs [OF assms(1)] have abs0: "queue_abs h q0 []" and r0: "Queue.running q0"
    by auto
  from r0 assms(2) have "owned_ops h (Queue.running q0, []) ops" by simp
  from run_refines [OF abs0 this] obtain h' q' xs' es where
    rn: "run (h, q0) ops = Inr ((h', q'), es)" and abs: "queue_abs h' q' xs'"
    by auto
  from queue_abs_emptiness [OF abs] have
    e: "(size q' = 0 \<longleftrightarrow> head q' = None \<and> tail q' = None) \<and>
        (size q' = 0 \<or> (head q' \<noteq> None \<and> tail q' \<noteq> None))"
    by auto
  have l: "size q' = 1 \<longrightarrow>
      (\<exists>h2 q2 r. queue_pop h' q' t wakes = Inr ((h2, q2, r), []) \<and> r = head q' \<and>
         size q2 = 0 \<and> head q2 = None \<and> tail q2 = None)"
  proof
    assume "size q' = 1"
    with abs obtain x where xs: "xs' = [x]" and hd: "head q' = Some x"
      by (cases xs') (auto simp: queue_abs_def)
    with abs queue_pop_nonempty [of h' q' x "[]" t wakes] show
      "\<exists>h2 q2 r. queue_pop h' q' t wakes = Inr ((h2, q2, r), []) \<and> r = head q' \<and>
         size q2 = 0 \<and> head q2 = None \<and> tail q2 = None"
      by auto
  qed
  show ?thesis
    by (rule exI [of _ h'], rule exI [of _ q'], rule exI [of _ es])
       (intro conjI rn l e [THEN conjunct1] e [THEN conjunct2])
qed

lemmas example_defs = three_requests_def two_linked_def queue_of_two_def empty_queue_def message_def

text \<open>
  C2 at a queue of two requests that is shut down and popped once: the push of the
  third request leaves the state as it is.
\<close>
theorem push_after_shutdown_witness:
  "run (two_linked, queue_shutdown queue_of_two) [Pop 2000 []] =
     Inr ((two_linked(1 \<mapsto> message ''one''),
           \<lparr>Queue.running = False, size = 1, head = Some 2, tail = Some 2\<rparr>),
          [Returned (Some 1)]) \<and>
   queue_push (two_linked(1 \<mapsto> message ''one''))
     \<lparr>Queue.running = False, size = 1, head = Some 2, tail = Some 2\<rparr> (Some 3) =
     Inr (two_linked(1 \<mapsto> message ''one''),
          \<lparr>Queue.running = False, size = 1, head = Some 2, tail = Some 2\<rparr>)"
proof -
  have r: "run (two_linked, queue_shutdown queue_of_two) [Pop 2000 []] =
     Inr ((two_linked(1 \<mapsto> message ''one''),
           \<lparr>Queue.running = False, size = 1, head = Some 2, tail = Some 2\<rparr>),
          [Returned (Some 1)])"
    by (simp add: queue_pop_def take_head_def queue_shutdown_def queue_of_two_def two_linked_def
        three_requests_def message_def)
  with push_after_shutdown [of two_linked queue_of_two "Some 3"] show ?thesis by blast
qed

text \<open>
  C3 at the queue of two requests; during the wait of the last pop another thread
  pushes request 3, which the shut-down queue does not take.
\<close>
theorem pop_drains_after_shutdown_witness:
  "queue_abs two_linked queue_of_two [1, 2] \<and>
   (\<exists>h' q'. queue_pop two_linked (queue_shutdown queue_of_two) 2000
        [(100, [Call_push 3]), (3000, [])] = Inr ((h', q', Some 1), [])) \<and>
   (\<exists>h' q'. run (two_linked, queue_shutdown queue_of_two) [Pop 2000 [], Pop 0 [(5, [])]] =
       Inr ((h', q'), [Returned (Some 1), Returned (Some 2)]) \<and>
     (\<exists>es. queue_pop h' q' 2000 [(100, [Call_push 3]), (3000, [])] = Inr ((h', q', None), es) \<and>
        sent es = [] \<and> returned es = []))"
proof -
  have a: "queue_abs two_linked queue_of_two [1, 2]"
    by (simp add: queue_abs_def example_defs)
  have b: "length [(2000, []), (0, [(5::nat, []::call list)])] = length [1::nat, 2]" by simp
  from pop_drains_after_shutdown [OF a b, of 2000 "[(100, [Call_push 3]), (3000, [])]"] a
  show ?thesis by simp
qed

text \<open>
  C4 for three requests: once with pops between the pushes and one pop on the empty
  queue, once with the first two pushes made while the consumer waits.
\<close>
theorem queue_fifo_witness:
  "queue_abs three_requests empty_queue [] \<and> Queue.running empty_queue \<and>
   one_consumer [Pop 2000 [], Push 1, Pop 2000 [], Push 2, Push 3, Pop 2000 [], Pop 2000 []] \<and>
   quiet [Pop 2000 [], Push 1, Pop 2000 [], Push 2, Push 3, Pop 2000 [], Pop 2000 []] \<and>
   owned_ops three_requests (True, [])
     [Pop 2000 [], Push 1, Pop 2000 [], Push 2, Push 3, Pop 2000 [], Pop 2000 []] \<and>
   (\<exists>h' q' es. run (three_requests, empty_queue)
        [Pop 2000 [], Push 1, Pop 2000 [], Push 2, Push 3, Pop 2000 [], Pop 2000 []] =
        Inr ((h', q'), es) \<and> returned es = [1, 2, 3] \<and> sent es = [1, 2, 3]) \<and>
   one_consumer [Pop 2000 [(100, [Call_push 1, Call_push 2])], Push 3, Pop 2000 [], Pop 2000 []] \<and>
   owned_ops three_requests (True, [])
     [Pop 2000 [(100, [Call_push 1, Call_push 2])], Push 3, Pop 2000 [], Pop 2000 []] \<and>
   (\<exists>h' q' es. run (three_requests, empty_queue)
        [Pop 2000 [(100, [Call_push 1, Call_push 2])], Push 3, Pop 2000 [], Pop 2000 []] =
        Inr ((h', q'), es) \<and> returned es = [1, 2, 3] \<and> sent es = [1, 2, 3])"
proof -
  let ?ops = "[Pop 2000 [], Push 1, Pop 2000 [], Push 2, Push 3, Pop 2000 [], Pop 2000 []]"
  let ?ops2 = "[Pop 2000 [(100, [Call_push 1, Call_push 2])], Push 3, Pop 2000 [], Pop 2000 []]"
  have a: "queue_abs three_requests empty_queue []"
    by (simp add: queue_abs_def example_defs)
  have b: "Queue.running empty_queue" by (simp add: example_defs)
  have c: "one_consumer ?ops" by (simp add: one_consumer_def pushes_only_def)
  have q: "quiet ?ops" by (simp add: quiet_def)
  have d: "owned_ops three_requests (True, []) ?ops" by (simp add: example_defs spec_pop_def)
  from queue_fifo [OF a b c d] q obtain h' q' xs' es where
    rn: "run (three_requests, empty_queue) ?ops = Inr ((h', q'), es)" and
    eq: "returned es @ xs' = sent es" and ps: "sent es = pushed ?ops"
    by blast
  have "\<exists>h q. run (three_requests, empty_queue) ?ops =
      Inr ((h, q), [Returned None, Accepted 1, Returned (Some 1), Accepted 2, Accepted 3,
                    Returned (Some 2), Returned (Some 3)])"
    by (simp add: queue_push_def queue_pop_def take_head_def example_defs)
  with rn have "returned es = [1, 2, 3]" by (auto simp: returned_def)
  moreover from ps have "sent es = [1, 2, 3]" by (simp add: pushed_def)
  ultimately have first: "\<exists>h' q' es. run (three_requests, empty_queue) ?ops =
        Inr ((h', q'), es) \<and> returned es = [1, 2, 3] \<and> sent es = [1, 2, 3]"
    using rn by blast
  have c2: "one_consumer ?ops2" by (simp add: one_consumer_def pushes_only_def)
  have d2: "owned_ops three_requests (True, []) ?ops2"
    by (simp add: example_defs spec_pop_def)
  from queue_fifo [OF a b c2 d2] obtain h2 q2 xs2 es2 where
    rn2: "run (three_requests, empty_queue) ?ops2 = Inr ((h2, q2), es2)" and
    abs2: "queue_abs h2 q2 xs2" and
    len2: "length (returned es2) = length (sent es2) \<longrightarrow> returned es2 = sent es2"
    by blast
  have "\<exists>h q. run (three_requests, empty_queue) ?ops2 =
      Inr ((h, q), [Accepted 1, Accepted 2, Returned (Some 1), Accepted 3,
                    Returned (Some 2), Returned (Some 3)])"
    by (simp add: queue_push_def queue_pop_def take_head_def example_defs)
  with rn2 have s2: "sent es2 = [1, 2, 3]" and l2: "length (returned es2) = 3"
    by (auto simp: returned_def sent_def)
  with len2 have "returned es2 = [1, 2, 3]" by simp
  with s2 rn2 have second: "\<exists>h' q' es. run (three_requests, empty_queue) ?ops2 =
        Inr ((h', q'), es) \<and> returned es = [1, 2, 3] \<and> sent es = [1, 2, 3]"
    by blast
  from a b c q d first c2 d2 second show ?thesis by (intro conjI)
qed

text \<open>
  C5 for two pushes accepted during the wait of a pop, the request that pop returns,
  a shutdown and a rejected push.
\<close>
theorem size_coherence_witness:
  "queue_create True = Some empty_queue \<and>
   owned_ops three_requests (True, [])
     [Pop 2000 [(100, [Call_push 1, Call_push 2])], Shutdown, Push 3] \<and>
   (\<exists>h' q' es. run (three_requests, empty_queue)
        [Pop 2000 [(100, [Call_push 1, Call_push 2])], Shutdown, Push 3] = Inr ((h', q'), es) \<and>
      accepted es = 2 \<and> returned es = [1] \<and> size q' = 1 \<and> chain h' (head q') [2])"
proof -
  let ?ops = "[Pop 2000 [(100, [Call_push 1, Call_push 2])], Shutdown, Push 3]"
  have a: "queue_create True = Some empty_queue"
    by (simp add: queue_create_def example_defs)
  have b: "owned_ops three_requests (True, []) ?ops" by (simp add: example_defs spec_pop_def)
  from size_coherence [OF a b] obtain h' q' es xs' where
    rn: "run (three_requests, empty_queue) ?ops = Inr ((h', q'), es)" and
    sz: "int (size q') = int (accepted es) - int (length (returned es))" and
    ch: "chain h' (head q') xs'" and len: "length xs' = size q'"
    by blast
  have "\<exists>h q. run (three_requests, empty_queue) ?ops =
      Inr ((h, q), [Accepted 1, Accepted 2, Returned (Some 1), Stopped, Rejected]) \<and>
      head q = Some 2 \<and> h 2 \<noteq> None"
    by (simp add: queue_push_def queue_pop_def take_head_def queue_shutdown_def example_defs)
  with rn have es: "accepted es = 2" "returned es = [1]" and hd: "head q' = Some 2"
    by (auto simp: accepted_def sent_def returned_def)
  with sz have "size q' = 1" by simp
  with len ch hd have "xs' = [2]" by (cases xs') auto
  with a b rn es \<open>size q' = 1\<close> ch show ?thesis by blast
qed

text \<open>C9 for two pushes and a pop, and the pop of the last request after them.\<close>
theorem emptiness_invariant_witness:
  "queue_create True = Some empty_queue \<and>
   owned_ops three_requests (True, []) [Push 1, Push 2, Pop 2000 []] \<and>
   (\<exists>h' q' es. run (three_requests, empty_queue) [Push 1, Push 2, Pop 2000 []] =
        Inr ((h', q'), es) \<and>
      size q' = 1 \<and> head q' = Some 2 \<and> tail q' = Some 2 \<and>
      (\<exists>h2 q2. queue_pop h' q' 2000 [] = Inr ((h2, q2, Some 2), []) \<and>
         size q2 = 0 \<and> head q2 = None \<and> tail q2 = None))"
proof -
  let ?ops = "[Push 1, Push 2, Pop 2000 []]"
  have a: "queue_create True = Some empty_queue"
    by (simp add: queue_create_def example_defs)
  have b: "owned_ops three_requests (True, []) ?ops" by (simp add: example_defs spec_pop_def)
  from emptiness_invariant [OF a b, of 2000 "[]"] obtain h' q' es where
    rn: "run (three_requests, empty_queue) ?ops = Inr ((h', q'), es)" and
    l: "size q' = 1 \<longrightarrow>
      (\<exists>h2 q2 r. queue_pop h' q' 2000 [] = Inr ((h2, q2, r), []) \<and> r = head q' \<and>
         size q2 = 0 \<and> head q2 = None \<and> tail q2 = None)"
    by blast
  have "\<exists>h q. run (three_requests, empty_queue) ?ops =
      Inr ((h, q), [Accepted 1, Accepted 2, Returned (Some 1)]) \<and>
      size q = 1 \<and> head q = Some 2 \<and> tail q = Some 2"
    by (simp add: queue_push_def queue_pop_def take_head_def example_defs)
  with rn have q: "size q' = 1" "head q' = Some 2" "tail q' = Some 2" by auto
  with l have "\<exists>h2 q2. queue_pop h' q' 2000 [] = Inr ((h2, q2, Some 2), []) \<and>
         size q2 = 0 \<and> head q2 = None \<and> tail q2 = None"
    by auto
  with a b rn q show ?thesis by blast
qed

section \<open>Properties of the client and the pusher\<close>

lemma queue_abs_alloc_other:
  "queue_abs h q xs \<Longrightarrow> a \<notin> set xs \<Longrightarrow> queue_abs (h(a := v)) q xs"
  by (simp add: queue_abs_def chain_update_other)

lemma queue_abs_allocated: "queue_abs h q xs \<Longrightarrow> x \<in> set xs \<Longrightarrow> h x \<noteq> None"
  by (auto simp: queue_abs_def dest: chain_allocated)

lemma smq_publish_fits:
  assumes "smq w = Some c" and "length (server_url c @ ''/topic/'' @ topic) < bufsiz"
  shows "(\<not> SMQ.running c \<longrightarrow> smq_publish bufsiz w topic b alloc = Inr w) \<and>
    (SMQ.running c \<longrightarrow>
       smq_publish bufsiz w topic b (Some a) =
         (case queue_push
                 ((mem w)(a \<mapsto> \<lparr>method = Some ''PUT'',
                                  url = Some (server_url c @ ''/topic/'' @ topic),
                                  body = b, next = None\<rparr>))
                 (outgoing c) (Some a) of
            Inl f \<Rightarrow> Inl f
          | Inr (h, q) \<Rightarrow> Inr (w\<lparr>mem := h, smq := Some (c\<lparr>outgoing := q\<rparr>)\<rparr>))) \<and>
    (SMQ.running c \<longrightarrow> Queue.running (outgoing c) \<longrightarrow> mem w a = None \<longrightarrow>
     queue_abs (mem w) (outgoing c) xs \<longrightarrow>
       (\<exists>w' c'. smq_publish bufsiz w topic b (Some a) = Inr w' \<and> smq w' = Some c' \<and>
          mem w' a = Some \<lparr>method = Some ''PUT'',
                            url = Some (server_url c @ ''/topic/'' @ topic),
                            body = b, next = None\<rparr> \<and>
          queue_abs (mem w') (outgoing c') (xs @ [a]) \<and>
          c' = c\<lparr>outgoing := outgoing c'\<rparr> \<and> joined w' = joined w \<and>
          freed w' = freed w))"
proof (intro conjI impI)
  assume "\<not> SMQ.running c"
  with assms show "smq_publish bufsiz w topic b alloc = Inr w" by (simp add: smq_publish_def)
next
  assume "SMQ.running c"
  with assms show "smq_publish bufsiz w topic b (Some a) =
         (case queue_push
                 ((mem w)(a \<mapsto> \<lparr>method = Some ''PUT'',
                                  url = Some (server_url c @ ''/topic/'' @ topic),
                                  body = b, next = None\<rparr>))
                 (outgoing c) (Some a) of
            Inl f \<Rightarrow> Inl f
          | Inr (h, q) \<Rightarrow> Inr (w\<lparr>mem := h, smq := Some (c\<lparr>outgoing := q\<rparr>)\<rparr>))"
    by (simp add: smq_publish_def sprintf_def request_create_def)
next
  let ?r = "\<lparr>method = Some ''PUT'', url = Some (server_url c @ ''/topic/'' @ topic),
             body = b, next = None\<rparr>"
  let ?h1 = "(mem w)(a \<mapsto> ?r)"
  assume run: "SMQ.running c" and qrun: "Queue.running (outgoing c)"
    and fresh: "mem w a = None" and abs: "queue_abs (mem w) (outgoing c) xs"
  from abs fresh have nin: "a \<notin> set xs" using queue_abs_allocated by blast
  with abs have abs1: "queue_abs ?h1 (outgoing c) xs" by (rule queue_abs_alloc_other)
  have "?h1 a = Some ?r" by simp
  from queue_push_running [OF abs1 qrun this nin] obtain h' q' where
    push: "queue_push ?h1 (outgoing c) (Some a) = Inr (h', q')" and
    abs': "queue_abs h' q' (xs @ [a])" and ha: "h' a = Some (?r\<lparr>next := None\<rparr>)"
    by blast
  from assms run push have "smq_publish bufsiz w topic b (Some a) =
      Inr (w\<lparr>mem := h', smq := Some (c\<lparr>outgoing := q'\<rparr>)\<rparr>)"
    by (simp add: smq_publish_def sprintf_def request_create_def)
  with abs' ha show "\<exists>w' c'. smq_publish bufsiz w topic b (Some a) = Inr w' \<and> smq w' = Some c' \<and>
          mem w' a = Some ?r \<and> queue_abs (mem w') (outgoing c') (xs @ [a]) \<and>
          c' = c\<lparr>outgoing := outgoing c'\<rparr> \<and> joined w' = joined w \<and>
          freed w' = freed w"
    by simp
qed

lemmas client_defs = alice_def alice_world_def alice_published_def alice_received_def
  empty_queue_def message_def

text \<open>
  C7. \<^verbatim>\<open>smq_publish\<close> formats the URL with \<^verbatim>\<open>sprintf\<close> into \<^verbatim>\<open>char url[BUFSIZ]\<close>
  and does not look at the length of the topic. On the created, running client a
  topic of 9000 characters, with \<^verbatim>\<open>BUFSIZ\<close> 8192, writes past the end of the array
  before any request is built; so does a topic of \<^verbatim>\<open>BUFSIZ\<close> characters for every
  value of \<^verbatim>\<open>BUFSIZ\<close>, whatever the body is. With the topic \<^verbatim>\<open>t\<close> the URL fits and
  the request is built and queued as the claim says.
\<close>
theorem publish_overruns_url_buffer:
  "smq_publish 8192 alice_world (replicate 9000 CHR ''x'') (Some ''hello'') (Some 1) =
     Inl BufferOverflow \<and>
   smq_publish bufsiz alice_world (replicate bufsiz CHR ''x'') b alloc = Inl BufferOverflow \<and>
   smq_publish 8192 alice_world ''t'' (Some ''hello'') (Some 1) = Inr alice_published"
  by (simp add: smq_publish_def sprintf_def request_create_def queue_push_def client_defs)

lemma wait_quiet_empty:
  "size q = 0 \<Longrightarrow> list_all (\<lambda>(u, cs). cs = []) wakes \<Longrightarrow>
   wait_produced (h, q) t wakes = Inr ((h, q), [], False)"
  by (induction wakes) auto

text \<open>
  C6. For a client \<open>c\<close>: when the client is not running, retrieve returns the null
  pointer and changes nothing. Otherwise it is a pop on the incoming queue with the
  timeout of the client: when the pop returns no request, retrieve returns the null
  pointer; when the pop returns the request at \<open>a\<close>, retrieve returns the body of that
  request and frees the request with its method and URL strings, but not the body.

  On an incoming queue that holds \<open>x # xs\<close> that is the body of \<open>x\<close>, with \<open>x\<close> freed
  and the queue left holding \<open>xs\<close>, without a wait. On an empty incoming queue that
  no other thread touches during the wait it is the null pointer, with nothing
  changed. When the request at \<open>a\<close> is pushed onto the empty queue during the wait
  and the wait returns at a time \<open>u\<close> before the timeout of the client, retrieve
  returns the body of that request; when the wait returns no earlier than the timeout,
  retrieve returns the null pointer and the request stays in the queue.

  In general, for a queue that holds \<open>xs\<close> and calls of other threads during the wait
  that obey the ownership rule, retrieve does not fault and returns what the pop of
  the specification with the timeout of the client returns: the null pointer for
  none, the body for a request, which is then freed.
\<close>
theorem smq_retrieve_spec:
  assumes "smq w = Some c"
  shows "(\<not> SMQ.running c \<longrightarrow> smq_retrieve w wakes = Inr (w, None)) \<and>
    (SMQ.running c \<longrightarrow>
     queue_pop (mem w) (incoming c) (timeout c) wakes = Inr ((h1, q1, None), es) \<longrightarrow>
       smq_retrieve w wakes = Inr (w\<lparr>mem := h1, smq := Some (c\<lparr>incoming := q1\<rparr>)\<rparr>, None)) \<and>
    (SMQ.running c \<longrightarrow>
     queue_pop (mem w) (incoming c) (timeout c) wakes = Inr ((h1, q1, Some a), es) \<longrightarrow>
     h1 a = Some ra \<longrightarrow>
       smq_retrieve w wakes =
         Inr (w\<lparr>mem := h1(a := None), smq := Some (c\<lparr>incoming := q1\<rparr>),
                freed := freed w @ held (method ra) @ held (url ra)\<rparr>, body ra)) \<and>
    (SMQ.running c \<longrightarrow> queue_abs (mem w) (incoming c) (x # xs) \<longrightarrow>
       (\<exists>rx q'. mem w x = Some rx \<and>
          smq_retrieve w wakes =
            Inr (w\<lparr>mem := (mem w)(x := None), smq := Some (c\<lparr>incoming := q'\<rparr>),
                   freed := freed w @ held (method rx) @ held (url rx)\<rparr>, body rx) \<and>
          queue_abs ((mem w)(x := None)) q' xs)) \<and>
    (SMQ.running c \<longrightarrow> queue_abs (mem w) (incoming c) [] \<longrightarrow>
     list_all (\<lambda>(u, cs). cs = []) wakes \<longrightarrow>
       smq_retrieve w wakes = Inr (w, None)) \<and>
    (SMQ.running c \<longrightarrow> Queue.running (incoming c) \<longrightarrow> queue_abs (mem w) (incoming c) [] \<longrightarrow>
     mem w p = Some rp \<longrightarrow> u < timeout c \<longrightarrow>
       smq_retrieve w ((u, [Call_push p]) # wakes) =
         Inr (w\<lparr>mem := (mem w)(p := None),
                freed := freed w @ held (method rp) @ held (url rp)\<rparr>, body rp)) \<and>
    (SMQ.running c \<longrightarrow> Queue.running (incoming c) \<longrightarrow> queue_abs (mem w) (incoming c) [] \<longrightarrow>
     mem w p = Some rp \<longrightarrow> timeout c \<le> u \<longrightarrow>
       (\<exists>w' c'. smq_retrieve w ((u, [Call_push p]) # wakes) = Inr (w', None) \<and>
          smq w' = Some c' \<and> queue_abs (mem w') (incoming c') [p] \<and>
          same_requests (mem w) (mem w') \<and> freed w' = freed w)) \<and>
    (SMQ.running c \<longrightarrow> queue_abs (mem w) (incoming c) ys \<longrightarrow>
     owned_wait (mem w) (Queue.running (incoming c), ys) (timeout c) wakes \<longrightarrow>
       (\<exists>w' c' ys' r es'.
          spec_pop (Queue.running (incoming c), ys) (timeout c) wakes =
            ((Queue.running (incoming c'), ys'), es' @ [Returned r]) \<and>
          smq w' = Some c' \<and> queue_abs (mem w') (incoming c') ys' \<and>
          (case r of
             None \<Rightarrow> smq_retrieve w wakes = Inr (w', None) \<and> freed w' = freed w
           | Some a \<Rightarrow>
               (\<exists>ra. mem w a = Some ra \<and> smq_retrieve w wakes = Inr (w', body ra) \<and>
                  mem w' a = None \<and>
                  freed w' = freed w @ held (method ra) @ held (url ra)))))"
proof (intro conjI impI)
  assume "\<not> SMQ.running c"
  with assms show "smq_retrieve w wakes = Inr (w, None)"
    by (simp add: smq_retrieve_def smq_running_def)
next
  assume "SMQ.running c"
    and "queue_pop (mem w) (incoming c) (timeout c) wakes = Inr ((h1, q1, None), es)"
  with assms show
    "smq_retrieve w wakes = Inr (w\<lparr>mem := h1, smq := Some (c\<lparr>incoming := q1\<rparr>)\<rparr>, None)"
    by (simp add: smq_retrieve_def smq_running_def)
next
  assume "SMQ.running c"
    and "queue_pop (mem w) (incoming c) (timeout c) wakes = Inr ((h1, q1, Some a), es)"
    and "h1 a = Some ra"
  with assms show "smq_retrieve w wakes =
         Inr (w\<lparr>mem := h1(a := None), smq := Some (c\<lparr>incoming := q1\<rparr>),
                freed := freed w @ held (method ra) @ held (url ra)\<rparr>, body ra)"
    by (simp add: smq_retrieve_def smq_running_def request_delete_def held_def)
next
  assume run: "SMQ.running c" and abs: "queue_abs (mem w) (incoming c) (x # xs)"
  from queue_pop_nonempty [OF abs, of "timeout c" wakes] obtain rx q' where
    rx: "mem w x = Some rx" and
    pop: "queue_pop (mem w) (incoming c) (timeout c) wakes =
            Inr (((mem w)(x \<mapsto> rx\<lparr>next := None\<rparr>), q', Some x), [])" and
    abs': "queue_abs ((mem w)(x \<mapsto> rx\<lparr>next := None\<rparr>)) q' xs"
    by blast
  from abs have "x \<notin> set xs" by (simp add: queue_abs_def)
  with abs' have "queue_abs (((mem w)(x \<mapsto> rx\<lparr>next := None\<rparr>))(x := None)) q' xs"
    by (rule queue_abs_alloc_other)
  then have "queue_abs ((mem w)(x := None)) q' xs" by simp
  moreover from assms run pop have "smq_retrieve w wakes =
      Inr (w\<lparr>mem := (mem w)(x := None), smq := Some (c\<lparr>incoming := q'\<rparr>),
             freed := freed w @ held (method rx) @ held (url rx)\<rparr>, body rx)"
    by (simp add: smq_retrieve_def smq_running_def request_delete_def held_def)
  ultimately show "\<exists>rx q'. mem w x = Some rx \<and>
          smq_retrieve w wakes =
            Inr (w\<lparr>mem := (mem w)(x := None), smq := Some (c\<lparr>incoming := q'\<rparr>),
                   freed := freed w @ held (method rx) @ held (url rx)\<rparr>, body rx) \<and>
          queue_abs ((mem w)(x := None)) q' xs"
    using rx by blast
next
  assume "SMQ.running c" and "queue_abs (mem w) (incoming c) []"
    and "list_all (\<lambda>(u, cs). cs = []) wakes"
  with assms show "smq_retrieve w wakes = Inr (w, None)"
    by (simp add: smq_retrieve_def smq_running_def queue_pop_def wait_quiet_empty queue_abs_def)
next
  assume run: "SMQ.running c" and qrun: "Queue.running (incoming c)"
    and abs: "queue_abs (mem w) (incoming c) []" and rp: "mem w p = Some rp"
    and lt: "u < timeout c"
  from abs have e: "size (incoming c) = 0" "head (incoming c) = None" "tail (incoming c) = None"
    by (simp_all add: queue_abs_def)
  let ?h1 = "(mem w)(p \<mapsto> rp\<lparr>next := None\<rparr>)"
  let ?q1 = "(incoming c)\<lparr>head := Some p, tail := Some p, size := 1\<rparr>"
  have "wait_produced (mem w, incoming c) (timeout c) ((u, [Call_push p]) # wakes) =
      Inr ((?h1, ?q1), [Accepted p], True)"
    using e qrun rp lt by (simp add: queue_push_def wait_produced_nonempty)
  then have "queue_pop (mem w) (incoming c) (timeout c) ((u, [Call_push p]) # wakes) =
      Inr ((?h1, incoming c, Some p), [Accepted p])"
    using e by (simp add: queue_pop_def take_head_def)
  with assms run show "smq_retrieve w ((u, [Call_push p]) # wakes) =
         Inr (w\<lparr>mem := (mem w)(p := None),
                freed := freed w @ held (method rp) @ held (url rp)\<rparr>, body rp)"
    by (simp add: smq_retrieve_def smq_running_def request_delete_def held_def)
next
  assume run: "SMQ.running c" and qrun: "Queue.running (incoming c)"
    and abs: "queue_abs (mem w) (incoming c) []" and rp: "mem w p = Some rp"
    and ge: "timeout c \<le> u"
  from abs have e: "size (incoming c) = 0" by (simp add: queue_abs_def)
  have "p \<notin> set []" by simp
  from queue_push_running [OF abs qrun rp this] obtain h' q' where
    push: "queue_push (mem w) (incoming c) (Some p) = Inr (h', q')" and
    abs': "queue_abs h' q' ([] @ [p])" and same: "same_requests (mem w) h'"
    by blast
  from push e qrun ge have
    "wait_produced (mem w, incoming c) (timeout c) ((u, [Call_push p]) # wakes) =
      Inr ((h', q'), [Accepted p], False)"
    by simp
  then have "queue_pop (mem w) (incoming c) (timeout c) ((u, [Call_push p]) # wakes) =
      Inr ((h', q', None), [Accepted p])"
    by (simp add: queue_pop_def)
  with assms run have "smq_retrieve w ((u, [Call_push p]) # wakes) =
      Inr (w\<lparr>mem := h', smq := Some (c\<lparr>incoming := q'\<rparr>)\<rparr>, None)"
    by (simp add: smq_retrieve_def smq_running_def)
  with abs' same show "\<exists>w' c'. smq_retrieve w ((u, [Call_push p]) # wakes) = Inr (w', None) \<and>
          smq w' = Some c' \<and> queue_abs (mem w') (incoming c') [p] \<and>
          same_requests (mem w) (mem w') \<and> freed w' = freed w"
    by simp
next
  assume run: "SMQ.running c" and abs: "queue_abs (mem w) (incoming c) ys"
    and own: "owned_wait (mem w) (Queue.running (incoming c), ys) (timeout c) wakes"
  from pop_refines [OF abs own] obtain h' q' ys' r es' where
    pop: "queue_pop (mem w) (incoming c) (timeout c) wakes = Inr ((h', q', r), es')" and
    sp: "spec_pop (Queue.running (incoming c), ys) (timeout c) wakes =
           ((Queue.running q', ys'), es' @ [Returned r])" and
    abs': "queue_abs h' q' ys'" and same: "same_requests (mem w) h'" and
    got: "case r of None \<Rightarrow> True | Some a \<Rightarrow> a \<notin> set ys' \<and> h' a \<noteq> None"
    by blast
  show "\<exists>w' c' ys' r es'.
          spec_pop (Queue.running (incoming c), ys) (timeout c) wakes =
            ((Queue.running (incoming c'), ys'), es' @ [Returned r]) \<and>
          smq w' = Some c' \<and> queue_abs (mem w') (incoming c') ys' \<and>
          (case r of
             None \<Rightarrow> smq_retrieve w wakes = Inr (w', None) \<and> freed w' = freed w
           | Some a \<Rightarrow>
               (\<exists>ra. mem w a = Some ra \<and> smq_retrieve w wakes = Inr (w', body ra) \<and>
                  mem w' a = None \<and>
                  freed w' = freed w @ held (method ra) @ held (url ra)))"
  proof (cases r)
    case None
    with assms run pop have "smq_retrieve w wakes =
        Inr (w\<lparr>mem := h', smq := Some (c\<lparr>incoming := q'\<rparr>)\<rparr>, None)"
      by (simp add: smq_retrieve_def smq_running_def)
    with None sp abs' show ?thesis
      by (intro exI [of _ "w\<lparr>mem := h', smq := Some (c\<lparr>incoming := q'\<rparr>)\<rparr>"]
          exI [of _ "c\<lparr>incoming := q'\<rparr>"] exI [of _ ys'] exI [of _ r] exI [of _ es']) simp
  next
    case (Some a)
    with got have nin: "a \<notin> set ys'" and "h' a \<noteq> None" by auto
    then obtain ra' where ra': "h' a = Some ra'" by blast
    with same_requests_allocated [OF same, of a] have "mem w a \<noteq> None" by simp
    then obtain ra where ra: "mem w a = Some ra" by blast
    from same ra ra' have "payload ra' = payload ra"
      by (auto elim: same_requests_payload)
    then have pl: "method ra' = method ra" "url ra' = url ra" "body ra' = body ra"
      by (simp_all add: payload_def)
    from abs' nin have abs2: "queue_abs (h'(a := None)) q' ys'" by (rule queue_abs_alloc_other)
    from assms run pop Some ra' pl have "smq_retrieve w wakes =
        Inr (w\<lparr>mem := h'(a := None), smq := Some (c\<lparr>incoming := q'\<rparr>),
               freed := freed w @ held (method ra) @ held (url ra)\<rparr>, body ra)"
      by (simp add: smq_retrieve_def smq_running_def request_delete_def held_def)
    with Some sp abs2 ra show ?thesis
      by (intro exI [of _ "w\<lparr>mem := h'(a := None), smq := Some (c\<lparr>incoming := q'\<rparr>),
               freed := freed w @ held (method ra) @ held (url ra)\<rparr>"]
          exI [of _ "c\<lparr>incoming := q'\<rparr>"] exI [of _ ys'] exI [of _ r] exI [of _ es']) simp
  qed
qed

lemma subscribe_rejected:
  assumes "smq w = Some c" and "\<not> Queue.running (outgoing c)"
    and "length (server_url c @ ''/subscription/'' @ name c @ ''/'' @ topic) < bufsiz"
  shows "smq_subscribe bufsiz w topic (Some a) =
      Inr (w\<lparr>mem := (mem w)(a \<mapsto>
             \<lparr>method = Some ''PUT'',
              url = Some (server_url c @ ''/subscription/'' @ name c @ ''/'' @ topic),
              body = None, next = None\<rparr>)\<rparr>) \<and>
    smq_unsubscribe bufsiz w topic (Some a) =
      Inr (w\<lparr>mem := (mem w)(a \<mapsto>
             \<lparr>method = Some ''DELETE'',
              url = Some (server_url c @ ''/subscription/'' @ name c @ ''/'' @ topic),
              body = None, next = None\<rparr>)\<rparr>) \<and>
    smq_subscribe bufsiz w topic None = Inr w \<and>
    smq_unsubscribe bufsiz w topic None = Inr w"
  using assms
  by (cases w)
     (simp add: smq_subscribe_def smq_unsubscribe_def sprintf_def request_create_def
        queue_push_def)

lemma smq_shutdown_stops:
  assumes "smq w = Some c"
  shows "\<exists>c'. smq (smq_shutdown w) = Some c' \<and> \<not> SMQ.running c' \<and>
           \<not> Queue.running (outgoing c') \<and> \<not> Queue.running (incoming c') \<and>
           server_url c' = server_url c \<and> name c' = name c \<and>
           mem (smq_shutdown w) = mem w"
  using assms by (simp add: smq_shutdown_def queue_shutdown_def)

lemma subscribe_after_shutdown_fits:
  assumes "smq w = Some c"
    and "length (server_url c @ ''/subscription/'' @ name c @ ''/'' @ topic) < bufsiz"
  shows "smq_subscribe bufsiz (smq_shutdown w) topic (Some a) =
      Inr ((smq_shutdown w)\<lparr>mem := (mem w)(a \<mapsto>
             \<lparr>method = Some ''PUT'',
              url = Some (server_url c @ ''/subscription/'' @ name c @ ''/'' @ topic),
              body = None, next = None\<rparr>)\<rparr>) \<and>
    smq_unsubscribe bufsiz (smq_shutdown w) topic (Some a) =
      Inr ((smq_shutdown w)\<lparr>mem := (mem w)(a \<mapsto>
             \<lparr>method = Some ''DELETE'',
              url = Some (server_url c @ ''/subscription/'' @ name c @ ''/'' @ topic),
              body = None, next = None\<rparr>)\<rparr>) \<and>
    smq_subscribe bufsiz (smq_shutdown w) topic None = Inr (smq_shutdown w) \<and>
    smq_unsubscribe bufsiz (smq_shutdown w) topic None = Inr (smq_shutdown w) \<and>
    smq_publish bufsiz (smq_shutdown w) topic b (Some a) = Inr (smq_shutdown w)"
proof -
  from smq_shutdown_stops [OF assms(1)] obtain c' where
    c': "smq (smq_shutdown w) = Some c'" and stopped: "\<not> SMQ.running c'" and
    closed: "\<not> Queue.running (outgoing c')" and
    same: "server_url c' = server_url c" "name c' = name c" "mem (smq_shutdown w) = mem w"
    by blast
  from c' stopped have
    "smq_publish bufsiz (smq_shutdown w) topic b (Some a) = Inr (smq_shutdown w)"
    by (simp add: smq_publish_def)
  moreover from assms(2) same have
    "length (server_url c' @ ''/subscription/'' @ name c' @ ''/'' @ topic) < bufsiz"
    by simp
  from subscribe_rejected [OF c' closed this, of a] same
  have "smq_subscribe bufsiz (smq_shutdown w) topic (Some a) =
      Inr ((smq_shutdown w)\<lparr>mem := (mem w)(a \<mapsto>
             \<lparr>method = Some ''PUT'',
              url = Some (server_url c @ ''/subscription/'' @ name c @ ''/'' @ topic),
              body = None, next = None\<rparr>)\<rparr>) \<and>
    smq_unsubscribe bufsiz (smq_shutdown w) topic (Some a) =
      Inr ((smq_shutdown w)\<lparr>mem := (mem w)(a \<mapsto>
             \<lparr>method = Some ''DELETE'',
              url = Some (server_url c @ ''/subscription/'' @ name c @ ''/'' @ topic),
              body = None, next = None\<rparr>)\<rparr>) \<and>
    smq_subscribe bufsiz (smq_shutdown w) topic None = Inr (smq_shutdown w) \<and>
    smq_unsubscribe bufsiz (smq_shutdown w) topic None = Inr (smq_shutdown w)"
    by simp
  ultimately show ?thesis by simp
qed

text \<open>
  C10. \<^verbatim>\<open>smq_subscribe\<close> and \<^verbatim>\<open>smq_unsubscribe\<close> format the URL with
  \<^verbatim>\<open>sprintf\<close> into \<^verbatim>\<open>char url[BUFSIZ]\<close> and do not look at the length of the
  topic. On the created client after its shutdown a topic of 9000 characters, with
  \<^verbatim>\<open>BUFSIZ\<close> 8192, writes past the end of the array before any request is built; so
  does a topic of \<^verbatim>\<open>BUFSIZ\<close> characters for every value of \<^verbatim>\<open>BUFSIZ\<close>. With the
  topic \<^verbatim>\<open>chat\<close> the URL fits: the request is built, the push is rejected and the
  client with its outgoing queue is as the shutdown left it, as the claim says.
\<close>
theorem subscribe_overruns_url_buffer:
  "smq_subscribe 8192 (smq_shutdown alice_world) (replicate 9000 CHR ''x'') (Some 1) =
     Inl BufferOverflow \<and>
   smq_unsubscribe 8192 (smq_shutdown alice_world) (replicate 9000 CHR ''x'') (Some 1) =
     Inl BufferOverflow \<and>
   smq_subscribe bufsiz (smq_shutdown alice_world) (replicate bufsiz CHR ''x'') alloc =
     Inl BufferOverflow \<and>
   smq_unsubscribe bufsiz (smq_shutdown alice_world) (replicate bufsiz CHR ''x'') alloc =
     Inl BufferOverflow \<and>
   smq_subscribe 8192 (smq_shutdown alice_world) ''chat'' (Some 1) =
     Inr ((smq_shutdown alice_world)\<lparr>mem :=
            [1 \<mapsto> \<lparr>method = Some ''PUT'',
                     url = Some ''localhost:8080/subscription/alice/chat'',
                     body = None, next = None\<rparr>]\<rparr>) \<and>
   smq_unsubscribe 8192 (smq_shutdown alice_world) ''chat'' (Some 1) =
     Inr ((smq_shutdown alice_world)\<lparr>mem :=
            [1 \<mapsto> \<lparr>method = Some ''DELETE'',
                     url = Some ''localhost:8080/subscription/alice/chat'',
                     body = None, next = None\<rparr>]\<rparr>)"
  by (simp add: smq_subscribe_def smq_unsubscribe_def smq_shutdown_def thread_join_def
      sprintf_def request_create_def queue_push_def queue_shutdown_def client_defs)

lemma smq_shutdown_again:
  "smq w = Some c \<Longrightarrow>
   smq_shutdown (smq_shutdown w) =
     (smq_shutdown w)\<lparr>joined := joined (smq_shutdown w) @ [pusher c, puller c]\<rparr>"
  by (simp add: smq_shutdown_def thread_join_def queue_shutdown_def)

text \<open>
  C1. The created client after one shutdown and after two: the second call changes
  neither the queues nor the flag, but it calls \<^verbatim>\<open>thread_join\<close> on both workers
  again, so it is not a no-op.
\<close>
theorem second_shutdown_joins_again:
  "smq_shutdown alice_world =
     \<lparr>mem = Map.empty,
      smq = Some (alice\<lparr>outgoing := queue_shutdown empty_queue,
                         incoming := queue_shutdown empty_queue, running := False\<rparr>),
      joined = [1, 2], freed = []\<rparr> \<and>
   smq_shutdown (smq_shutdown alice_world) =
     \<lparr>mem = Map.empty,
      smq = Some (alice\<lparr>outgoing := queue_shutdown empty_queue,
                         incoming := queue_shutdown empty_queue, running := False\<rparr>),
      joined = [1, 2, 1, 2], freed = []\<rparr> \<and>
   smq_shutdown (smq_shutdown alice_world) \<noteq> smq_shutdown alice_world"
  by (simp add: smq_shutdown_def thread_join_def alice_world_def alice_def queue_shutdown_def empty_queue_def)

lemma pusher_pass_states:
  assumes abs: "queue_abs h q xs"
    and ow: "owned_wait h (Queue.running q, xs) t wakes"
    and sp: "spec_pop (Queue.running q, xs) t wakes = ((r1, rest), es1 @ [Returned (Some a)])"
    and om: "owned_ops h (r1, rest) meanwhile"
    and sm: "spec_run (r1, rest) meanwhile = ((r2, xs2), es2)"
  shows "\<exists>h1 q1 h2 q2. queue_pop h q t wakes = Inr ((h1, q1, Some a), es1) \<and>
           run (h1, q1) meanwhile = Inr ((h2, q2), es2) \<and>
           queue_abs h2 q2 xs2 \<and> Queue.running q2 = r2 \<and> same_requests h h2 \<and>
           h2 a \<noteq> None"
proof -
  from pop_refines [OF abs ow] obtain h1 q1 xs1 r es where
    pop: "queue_pop h q t wakes = Inr ((h1, q1, r), es)" and
    sp1: "spec_pop (Queue.running q, xs) t wakes = ((Queue.running q1, xs1), es @ [Returned r])" and
    abs1: "queue_abs h1 q1 xs1" and same1: "same_requests h h1" and
    got: "case r of None \<Rightarrow> True | Some a \<Rightarrow> a \<notin> set xs1 \<and> h1 a \<noteq> None"
    by blast
  from sp sp1 have eq: "Queue.running q1 = r1" "xs1 = rest" "es = es1" "r = Some a" by simp_all
  with got have a1: "h1 a \<noteq> None" by simp
  from om eq same1 have "owned_ops h1 (Queue.running q1, xs1) meanwhile"
    by (simp add: owned_ops_same_requests)
  from run_refines [OF abs1 this] obtain h2 q2 xs2' es2' where
    rn: "run (h1, q1) meanwhile = Inr ((h2, q2), es2')" and
    sp2: "spec_run (Queue.running q1, xs1) meanwhile = ((Queue.running q2, xs2'), es2')" and
    abs2: "queue_abs h2 q2 xs2'" and same2: "same_requests h1 h2"
    by blast
  from sm sp2 eq have eq2: "Queue.running q2 = r2" "xs2' = xs2" "es2' = es2" by simp_all
  from a1 same_requests_allocated [OF same2, of a] have "h2 a \<noteq> None" by simp
  with pop rn abs2 eq eq2 same_requests_trans [OF same1 same2] show ?thesis by auto
qed

lemma pusher_iteration_requeue:
  assumes c: "smq w = Some c" and abs: "queue_abs (mem w) (outgoing c) xs"
    and ow: "owned_wait (mem w) (Queue.running (outgoing c), xs) (timeout c) wakes"
    and sp: "spec_pop (Queue.running (outgoing c), xs) (timeout c) wakes =
               ((r1, rest), es1 @ [Returned (Some a)])"
    and om: "owned_ops (mem w) (r1, rest) meanwhile"
    and sm: "spec_run (r1, rest) meanwhile = ((r2, xs2), es2)"
    and na: "a \<notin> set xs2" and r2: "r2"
  shows "\<exists>w' c'. smq_pusher_iteration w wakes meanwhile None = Inr w' \<and> smq w' = Some c' \<and>
           queue_abs (mem w') (outgoing c') (xs2 @ [a]) \<and>
           same_requests (mem w) (mem w') \<and> Queue.running (outgoing c')"
proof -
  from pusher_pass_states [OF abs ow sp om sm] obtain h1 q1 h2 q2 where
    pop: "queue_pop (mem w) (outgoing c) (timeout c) wakes = Inr ((h1, q1, Some a), es1)" and
    rn: "run (h1, q1) meanwhile = Inr ((h2, q2), es2)" and
    abs2: "queue_abs h2 q2 xs2" and run2: "Queue.running q2 = r2" and
    same: "same_requests (mem w) h2" and "h2 a \<noteq> None"
    by blast
  then obtain ra where ra: "h2 a = Some ra" by blast
  from run2 r2 have "Queue.running q2" by simp
  from queue_push_running [OF abs2 this ra na] obtain h3 q3 where
    push: "queue_push h2 q2 (Some a) = Inr (h3, q3)" and
    abs3: "queue_abs h3 q3 (xs2 @ [a])" and r3: "Queue.running q3" and
    same3: "same_requests h2 h3"
    by blast
  from c pop rn push have "smq_pusher_iteration w wakes meanwhile None =
      Inr (w\<lparr>mem := h3, smq := Some (c\<lparr>outgoing := q3\<rparr>)\<rparr>)"
    by (simp add: smq_pusher_iteration_def)
  with abs3 r3 same_requests_trans [OF same same3] show ?thesis by simp
qed

lemma pusher_iteration_delete:
  assumes c: "smq w = Some c" and abs: "queue_abs (mem w) (outgoing c) xs"
    and ow: "owned_wait (mem w) (Queue.running (outgoing c), xs) (timeout c) wakes"
    and sp: "spec_pop (Queue.running (outgoing c), xs) (timeout c) wakes =
               ((r1, rest), es1 @ [Returned (Some a)])"
    and om: "owned_ops (mem w) (r1, rest) meanwhile"
    and sm: "spec_run (r1, rest) meanwhile = ((r2, xs2), es2)"
    and na: "a \<notin> set xs2"
  shows "\<exists>w' c' ra. smq_pusher_iteration w wakes meanwhile (Some s) = Inr w' \<and>
           smq w' = Some c' \<and> mem w a = Some ra \<and> mem w' a = None \<and>
           freed w' = freed w @ held (method ra) @ held (url ra) @ held (body ra) @ [s] \<and>
           queue_abs (mem w') (outgoing c') xs2 \<and> Queue.running (outgoing c') = r2"
proof -
  from pusher_pass_states [OF abs ow sp om sm] obtain h1 q1 h2 q2 where
    pop: "queue_pop (mem w) (outgoing c) (timeout c) wakes = Inr ((h1, q1, Some a), es1)" and
    rn: "run (h1, q1) meanwhile = Inr ((h2, q2), es2)" and
    abs2: "queue_abs h2 q2 xs2" and run2: "Queue.running q2 = r2" and
    same: "same_requests (mem w) h2" and "h2 a \<noteq> None"
    by blast
  then obtain ra where ra: "h2 a = Some ra" by blast
  with same_requests_allocated [OF same, of a] have "mem w a \<noteq> None" by simp
  then obtain r0 where r0: "mem w a = Some r0" by blast
  from same r0 ra have "payload ra = payload r0"
    by (auto elim: same_requests_payload)
  then have pl: "method ra = method r0" "url ra = url r0" "body ra = body r0"
    by (simp_all add: payload_def)
  from abs2 na have "queue_abs (h2(a := None)) q2 xs2" by (rule queue_abs_alloc_other)
  moreover from c pop rn ra have "smq_pusher_iteration w wakes meanwhile (Some s) =
      Inr (w\<lparr>mem := h2(a := None), smq := Some (c\<lparr>outgoing := q2\<rparr>),
             freed := freed w @ held (method ra) @ held (url ra) @ held (body ra) @ [s]\<rparr>)"
    by (simp add: smq_pusher_iteration_def request_delete_def)
  ultimately show ?thesis using r0 pl run2 by simp
qed

lemma failing_iterations_rotate:
  "smq w = Some c \<Longrightarrow> queue_abs (mem w) (outgoing c) xs \<Longrightarrow> xs \<noteq> [] \<Longrightarrow>
   Queue.running (outgoing c) \<Longrightarrow>
   \<exists>w' c'. failing_iterations n w = Inr w' \<and> smq w' = Some c' \<and>
     queue_abs (mem w') (outgoing c') (rotate n xs) \<and> same_requests (mem w) (mem w')"
proof (induction n arbitrary: w c xs)
  case 0
  then show ?case by (simp add: same_requests_refl)
next
  case (Suc n)
  from Suc.prems(3) obtain a rest where xs: "xs = a # rest" by (cases xs) auto
  with Suc.prems(2) have nin: "a \<notin> set rest" by (simp add: queue_abs_def)
  have ow: "owned_wait (mem w) (Queue.running (outgoing c), xs) (timeout c) []" by simp
  have sp: "spec_pop (Queue.running (outgoing c), xs) (timeout c) [] =
      ((True, rest), [] @ [Returned (Some a)])"
    using xs Suc.prems(4) by (simp add: spec_pop_def)
  have om: "owned_ops (mem w) (True, rest) []" by simp
  have sm: "spec_run (True, rest) [] = ((True, rest), [])" by simp
  from pusher_iteration_requeue [OF Suc.prems(1,2) ow sp om sm nin]
  obtain w1 c1 where
    it: "smq_pusher_iteration w [] [] None = Inr w1" and c1: "smq w1 = Some c1" and
    abs1: "queue_abs (mem w1) (outgoing c1) (rest @ [a])" and
    same1: "same_requests (mem w) (mem w1)" and r1: "Queue.running (outgoing c1)"
    by auto
  have "rest @ [a] \<noteq> []" by simp
  from Suc.IH [OF c1 abs1 this r1] obtain w' c' where
    "failing_iterations n w1 = Inr w'" "smq w' = Some c'"
    "queue_abs (mem w') (outgoing c') (rotate n (rest @ [a]))"
    "same_requests (mem w1) (mem w')"
    by blast
  moreover have "rotate n (rest @ [a]) = rotate (Suc n) xs"
    using xs by (simp add: rotate1_rotate_swap)
  ultimately show ?case using it same_requests_trans [OF same1] by auto
qed

text \<open>
  C8, with the push-back on a queue that is still running. The outgoing queue holds
  \<open>xs\<close>; the pop of the pass, with the timeout of the client and whatever other
  threads call during its wait, returns the request \<open>a\<close> and leaves \<open>rest\<close>; while
  the transport runs, other threads make the calls \<open>meanwhile\<close> (pushes, pops and
  shutdowns, in any number and order), which leave the queue holding \<open>xs2\<close>. All
  calls obey the ownership rule, and no other thread has put \<open>a\<close>, which the pusher
  holds, into the queue.

  When the transport fails and the queue is running at the end of it, the pass does not
  fault and the queue then holds \<open>xs2\<close> and last the request \<open>a\<close> itself, at its
  address and with its contents. \<open>xs2\<close> is what \<open>rest\<close> and the requests accepted
  meanwhile, in that order, have left after the pops made meanwhile; when the calls
  meanwhile are the pushes of \<open>ps\<close> onto a running queue, it is \<open>rest @ ps\<close>. \<open>n\<close>
  failed passes in a row, for any \<open>n\<close>, rotate a running queue \<open>n\<close> times and lose
  nothing.

  When the transport succeeds, whatever the calls meanwhile are (a shutdown among
  them or not), \<open>a\<close> is freed with its three strings, then the response, and the
  queue holds \<open>xs2\<close>, in which \<open>a\<close> is not.
\<close>
theorem pusher_requeues_when_running:
  assumes "smq w = Some c" and "queue_abs (mem w) (outgoing c) xs"
    and "owned_wait (mem w) (Queue.running (outgoing c), xs) (timeout c) wakes"
    and "spec_pop (Queue.running (outgoing c), xs) (timeout c) wakes =
           ((r1, rest), es1 @ [Returned (Some a)])"
    and "owned_ops (mem w) (r1, rest) meanwhile"
    and "spec_run (r1, rest) meanwhile = ((r2, xs2), es2)"
    and "a \<notin> set xs2"
  shows "(r2 \<longrightarrow>
      (\<exists>w' c'. smq_pusher_iteration w wakes meanwhile None = Inr w' \<and> smq w' = Some c' \<and>
         queue_abs (mem w') (outgoing c') (xs2 @ [a]) \<and>
         same_requests (mem w) (mem w') \<and> Queue.running (outgoing c'))) \<and>
    returned es2 @ xs2 = rest @ sent es2 \<and>
    (r1 \<longrightarrow> meanwhile = map Push ps \<longrightarrow> r2 \<and> xs2 = rest @ ps) \<and>
    (Queue.running (outgoing c) \<longrightarrow> xs \<noteq> [] \<longrightarrow>
      (\<exists>w' c'. failing_iterations n w = Inr w' \<and> smq w' = Some c' \<and>
         queue_abs (mem w') (outgoing c') (rotate n xs) \<and>
         same_requests (mem w) (mem w'))) \<and>
    (\<exists>w' c' ra. smq_pusher_iteration w wakes meanwhile (Some s) = Inr w' \<and>
       smq w' = Some c' \<and> mem w a = Some ra \<and> mem w' a = None \<and>
       freed w' = freed w @ held (method ra) @ held (url ra) @ held (body ra) @ [s] \<and>
       queue_abs (mem w') (outgoing c') xs2 \<and> Queue.running (outgoing c') = r2)"
proof -
  have pushes: "spec_run (True, ys) (map Push ps) = ((True, ys @ ps), map Accepted ps)"
    for ys
    by (induction ps arbitrary: ys) auto
  have "r1 \<longrightarrow> meanwhile = map Push ps \<longrightarrow> r2 \<and> xs2 = rest @ ps"
    using assms(6) pushes [of rest] by auto
  moreover have "Queue.running (outgoing c) \<longrightarrow> xs \<noteq> [] \<longrightarrow>
      (\<exists>w' c'. failing_iterations n w = Inr w' \<and> smq w' = Some c' \<and>
         queue_abs (mem w') (outgoing c') (rotate n xs) \<and>
         same_requests (mem w) (mem w'))"
    using failing_iterations_rotate [OF assms(1,2), of n] by blast
  moreover have "r2 \<longrightarrow>
      (\<exists>w' c'. smq_pusher_iteration w wakes meanwhile None = Inr w' \<and> smq w' = Some c' \<and>
         queue_abs (mem w') (outgoing c') (xs2 @ [a]) \<and>
         same_requests (mem w) (mem w') \<and> Queue.running (outgoing c'))"
    using pusher_iteration_requeue [OF assms] by blast
  ultimately show ?thesis
    using spec_run_order [OF assms(6)] pusher_iteration_delete [OF assms, of s] by blast
qed

text \<open>
  C8 as stated fails when the outgoing queue is shut down while the transport runs.
  The outgoing queue of a running client holds request 1; the pass pops it, the
  transport fails, \<^verbatim>\<open>queue_shutdown\<close> is called meanwhile, and the push is rejected:
  the queue is left empty, it does not hold request 1 at its tail, and request 1 is
  still allocated.
\<close>
theorem pusher_drops_after_shutdown:
  "queue_abs (mem alice_published)
     \<lparr>Queue.running = True, size = 1, head = Some 1, tail = Some 1\<rparr> [1] \<and>
   smq_pusher_iteration alice_published [] [Shutdown] None =
     Inr \<lparr>mem = [1 \<mapsto> message ''hello''],
          smq = Some (alice\<lparr>outgoing :=
                  \<lparr>Queue.running = False, size = 0, head = None, tail = None\<rparr>\<rparr>),
          joined = [], freed = []\<rparr> \<and>
   queue_abs [1 \<mapsto> message ''hello'']
     \<lparr>Queue.running = False, size = 0, head = None, tail = None\<rparr> [] \<and>
   \<not> queue_abs [1 \<mapsto> message ''hello'']
     \<lparr>Queue.running = False, size = 0, head = None, tail = None\<rparr> [1]"
  by (simp add: smq_pusher_iteration_def alice_published_def alice_def queue_pop_def
      take_head_def queue_push_def queue_shutdown_def message_def queue_abs_def fun_eq_iff)

text \<open>
  C6 at a client with one received message in its queue; at a client whose queue is
  empty while the puller holds a message: nothing is pushed during the wait, the
  message is pushed 100 ms into the wait of a client with the timeout 2000, and the
  same push for a client with the timeout 50; and after shutdown.
\<close>
theorem smq_retrieve_spec_witness:
  "SMQ.running alice \<and>
   queue_abs (mem alice_received)
     \<lparr>Queue.running = True, size = 1, head = Some 5, tail = Some 5\<rparr> [5] \<and>
   smq_retrieve alice_received [] = Inr (alice_world, Some ''hi'') \<and>
   queue_abs (mem (alice_waiting 2000)) empty_queue [] \<and>
   smq_retrieve (alice_waiting 2000) [(100, [])] = Inr (alice_waiting 2000, None) \<and>
   smq_retrieve (alice_waiting 2000) [(100, [Call_push 5])] = Inr (alice_world, Some ''hi'') \<and>
   (\<exists>w' c'. smq_retrieve (alice_waiting 50) [(100, [Call_push 5])] = Inr (w', None) \<and>
      smq w' = Some c' \<and> queue_abs (mem w') (incoming c') [5]) \<and>
   smq_retrieve (smq_shutdown alice_received) [] = Inr (smq_shutdown alice_received, None)"
proof -
  let ?q = "\<lparr>Queue.running = True, size = 1, head = Some 5, tail = Some 5\<rparr>"
  let ?c = "alice\<lparr>incoming := ?q\<rparr>"
  let ?r5 = "\<lparr>method = None, url = None, body = Some ''hi'', next = None\<rparr>"
  have a: "smq alice_received = Some ?c" by (simp add: client_defs)
  have r: "SMQ.running ?c" "SMQ.running alice" by (simp_all add: client_defs)
  have q: "queue_abs (mem alice_received) ?q [5]" by (simp add: client_defs queue_abs_def)
  then have q1: "queue_abs (mem alice_received) (incoming ?c) [5]" by simp
  from smq_retrieve_spec [OF a, where wakes = "[]" and x = 5 and xs = "[]"] r(1) q1
  obtain rx q' where
    rx: "mem alice_received 5 = Some rx" and
    got: "smq_retrieve alice_received [] =
       Inr (alice_received\<lparr>mem := (mem alice_received)(5 := None),
              smq := Some (?c\<lparr>incoming := q'\<rparr>),
              freed := freed alice_received @ held (method rx) @ held (url rx)\<rparr>, body rx)"
    by blast
  from rx have "body rx = Some ''hi''" by (auto simp: client_defs)
  with got have "\<exists>w'. smq_retrieve alice_received [] = Inr (w', Some ''hi'')" by simp
  moreover have "\<exists>m. smq_retrieve alice_received [] = Inr (alice_world, m)"
    by (simp add: smq_retrieve_def smq_running_def queue_pop_def take_head_def
        request_delete_def held_def client_defs)
  ultimately have ev: "smq_retrieve alice_received [] = Inr (alice_world, Some ''hi'')"
    by auto
  have b: "smq (alice_waiting 2000) = Some alice" "mem (alice_waiting 2000) 5 = Some ?r5"
    by (simp_all add: alice_waiting_def client_defs)
  have e: "queue_abs (mem (alice_waiting 2000)) (incoming alice) []"
    "Queue.running (incoming alice)" "(100::nat) < timeout alice"
    by (simp_all add: client_defs queue_abs_def)
  then have e0: "queue_abs (mem (alice_waiting 2000)) empty_queue []"
    by (simp add: client_defs)
  have "list_all (\<lambda>(u, cs). cs = []) [(100::nat, []::call list)]" by simp
  with smq_retrieve_spec [OF b(1), where wakes = "[(100, [])]"] r(2) e(1) have
    timed_out: "smq_retrieve (alice_waiting 2000) [(100, [])] = Inr (alice_waiting 2000, None)"
    by blast
  from smq_retrieve_spec [OF b(1), where wakes = "[]" and p = 5 and rp = ?r5 and u = 100]
    r(2) e b(2)
  have "smq_retrieve (alice_waiting 2000) [(100, [Call_push 5])] =
      Inr ((alice_waiting 2000)\<lparr>mem := (mem (alice_waiting 2000))(5 := None),
             freed := freed (alice_waiting 2000) @ held (method ?r5) @ held (url ?r5)\<rparr>,
           body ?r5)"
    by blast
  moreover have "(alice_waiting 2000)\<lparr>mem := (mem (alice_waiting 2000))(5 := None),
             freed := freed (alice_waiting 2000) @ held (method ?r5) @ held (url ?r5)\<rparr> =
      alice_world"
    by (simp add: alice_waiting_def client_defs held_def)
  ultimately have pushed_in_time:
    "smq_retrieve (alice_waiting 2000) [(100, [Call_push 5])] = Inr (alice_world, Some ''hi'')"
    by simp
  have b2: "smq (alice_waiting 50) = Some (alice\<lparr>timeout := 50\<rparr>)"
    "mem (alice_waiting 50) 5 = Some ?r5"
    by (simp_all add: alice_waiting_def)
  have e2: "SMQ.running (alice\<lparr>timeout := 50\<rparr>)"
    "Queue.running (incoming (alice\<lparr>timeout := 50\<rparr>))"
    "queue_abs (mem (alice_waiting 50)) (incoming (alice\<lparr>timeout := 50\<rparr>)) []"
    "timeout (alice\<lparr>timeout := 50\<rparr>) \<le> 100"
    by (simp_all add: client_defs queue_abs_def)
  from smq_retrieve_spec [OF b2(1), where wakes = "[]" and p = 5 and rp = ?r5 and u = 100]
    e2 b2(2)
  have too_late: "\<exists>w' c'. smq_retrieve (alice_waiting 50) [(100, [Call_push 5])] = Inr (w', None) \<and>
      smq w' = Some c' \<and> queue_abs (mem w') (incoming c') [5]"
    by blast
  have s: "smq (smq_shutdown alice_received) =
      Some (?c\<lparr>outgoing := queue_shutdown (outgoing ?c),
                incoming := queue_shutdown (incoming ?c), running := False\<rparr>)"
    by (simp add: smq_shutdown_def thread_join_def client_defs)
  have "\<not> SMQ.running (?c\<lparr>outgoing := queue_shutdown (outgoing ?c),
                incoming := queue_shutdown (incoming ?c), running := False\<rparr>)"
    by simp
  with smq_retrieve_spec [OF s, where wakes = "[]"] have
    stopped: "smq_retrieve (smq_shutdown alice_received) [] = Inr (smq_shutdown alice_received, None)"
    by blast
  from r(2) q ev e0 timed_out pushed_in_time too_late stopped show ?thesis by (intro conjI)
qed

text \<open>
  C8 at the client with one published request: while the transport runs a second
  request is pushed, or the queue is shut down.
\<close>
theorem pusher_requeues_when_running_witness:
  "queue_abs [1 \<mapsto> message ''hello'', 2 \<mapsto> message ''world'']
     \<lparr>Queue.running = True, size = 1, head = Some 1, tail = Some 1\<rparr> [1] \<and>
   (\<exists>w' c'. smq_pusher_iteration
        (alice_published\<lparr>mem := [1 \<mapsto> message ''hello'', 2 \<mapsto> message ''world'']\<rparr>)
        [] [Push 2] None = Inr w' \<and>
      smq w' = Some c' \<and> queue_abs (mem w') (outgoing c') [2, 1] \<and>
      same_requests [1 \<mapsto> message ''hello'', 2 \<mapsto> message ''world''] (mem w')) \<and>
   (\<exists>w' c'. failing_iterations 3
        (alice_published\<lparr>mem := [1 \<mapsto> message ''hello'', 2 \<mapsto> message ''world'']\<rparr>) = Inr w' \<and>
      smq w' = Some c' \<and> queue_abs (mem w') (outgoing c') [1]) \<and>
   (\<exists>w' c'. smq_pusher_iteration
        (alice_published\<lparr>mem := [1 \<mapsto> message ''hello'', 2 \<mapsto> message ''world'']\<rparr>)
        [] [Push 2] (Some ''ok'') = Inr w' \<and>
      smq w' = Some c' \<and> mem w' 1 = None \<and>
      freed w' = [''PUT'', ''localhost:8080/topic/t'', ''hello'', ''ok''] \<and>
      queue_abs (mem w') (outgoing c') [2]) \<and>
   (\<exists>w' c'. smq_pusher_iteration alice_published [] [Shutdown] (Some ''ok'') = Inr w' \<and>
      smq w' = Some c' \<and> mem w' 1 = None \<and>
      freed w' = [''PUT'', ''localhost:8080/topic/t'', ''hello'', ''ok''] \<and>
      queue_abs (mem w') (outgoing c') [] \<and> \<not> Queue.running (outgoing c'))"
proof -
  let ?h = "[1 \<mapsto> message ''hello'', 2 \<mapsto> message ''world'']"
  let ?q = "\<lparr>Queue.running = True, size = 1, head = Some 1, tail = Some 1\<rparr>"
  let ?c = "alice\<lparr>outgoing := ?q\<rparr>"
  let ?w = "alice_published\<lparr>mem := ?h\<rparr>"
  have a: "smq ?w = Some ?c" by (simp add: client_defs)
  have q: "queue_abs ?h ?q [1]" by (simp add: client_defs queue_abs_def)
  then have b: "queue_abs (mem ?w) (outgoing ?c) [1]" by simp
  have ow: "owned_wait (mem ?w) (Queue.running (outgoing ?c), [1]) (timeout ?c) []" by simp
  have sp: "spec_pop (Queue.running (outgoing ?c), [1]) (timeout ?c) [] =
      ((True, []), [] @ [Returned (Some 1)])"
    by (simp add: spec_pop_def)
  have om: "owned_ops (mem ?w) (True, []) [Push 2]" by simp
  have sm: "spec_run (True, []) [Push 2] = ((True, [2]), [Accepted 2])" by simp
  have na: "(1::nat) \<notin> set [2]" by simp
  have d: "Queue.running (outgoing ?c)" "[1::nat] \<noteq> []" by simp_all
  note T = pusher_requeues_when_running [OF a b ow sp om sm na, of "[2]" 3 "''ok''"]
  from T have f1: "\<exists>w' c'. smq_pusher_iteration ?w [] [Push 2] None = Inr w' \<and>
      smq w' = Some c' \<and> queue_abs (mem w') (outgoing c') ([2] @ [1]) \<and>
      same_requests (mem ?w) (mem w') \<and> Queue.running (outgoing c')"
    by blast
  from T d have f2: "\<exists>w' c'. failing_iterations 3 ?w = Inr w' \<and> smq w' = Some c' \<and>
      queue_abs (mem w') (outgoing c') (rotate 3 [1]) \<and> same_requests (mem ?w) (mem w')"
    by blast
  from T have f3: "\<exists>w' c' ra. smq_pusher_iteration ?w [] [Push 2] (Some ''ok'') = Inr w' \<and>
      smq w' = Some c' \<and> mem ?w 1 = Some ra \<and> mem w' 1 = None \<and>
      freed w' = freed ?w @ held (method ra) @ held (url ra) @ held (body ra) @ [''ok''] \<and>
      queue_abs (mem w') (outgoing c') [2] \<and> Queue.running (outgoing c') = True"
    by blast
  have rot: "rotate 3 [1::nat] = [1]" by code_simp
  from f1 have g1: "\<exists>w' c'. smq_pusher_iteration ?w [] [Push 2] None = Inr w' \<and>
      smq w' = Some c' \<and> queue_abs (mem w') (outgoing c') [2, 1] \<and>
      same_requests ?h (mem w')"
    by auto
  from f2 rot have g2: "\<exists>w' c'. failing_iterations 3 ?w = Inr w' \<and> smq w' = Some c' \<and>
      queue_abs (mem w') (outgoing c') [1]"
    by auto
  from f3 have g3: "\<exists>w' c'. smq_pusher_iteration ?w [] [Push 2] (Some ''ok'') = Inr w' \<and>
      smq w' = Some c' \<and> mem w' 1 = None \<and>
      freed w' = [''PUT'', ''localhost:8080/topic/t'', ''hello'', ''ok''] \<and>
      queue_abs (mem w') (outgoing c') [2]"
    by (auto simp: client_defs held_def)
  have a2: "smq alice_published = Some ?c" by (simp add: client_defs)
  have b2: "queue_abs (mem alice_published) (outgoing ?c) [1]"
    by (simp add: client_defs queue_abs_def)
  have ow2: "owned_wait (mem alice_published) (Queue.running (outgoing ?c), [1]) (timeout ?c) []"
    by simp
  have om2: "owned_ops (mem alice_published) (True, []) [Shutdown]" by simp
  have sm2: "spec_run (True, []) [Shutdown] = ((False, []), [Stopped])" by simp
  have na2: "(1::nat) \<notin> set []" by simp
  from pusher_requeues_when_running [OF a2 b2 ow2 sp om2 sm2 na2, of "[]" 0 "''ok''"]
  have f4: "\<exists>w' c' ra. smq_pusher_iteration alice_published [] [Shutdown] (Some ''ok'') = Inr w' \<and>
      smq w' = Some c' \<and> mem alice_published 1 = Some ra \<and> mem w' 1 = None \<and>
      freed w' = freed alice_published @ held (method ra) @ held (url ra) @ held (body ra) @
        [''ok''] \<and>
      queue_abs (mem w') (outgoing c') [] \<and> Queue.running (outgoing c') = False"
    by blast
  then have g4: "\<exists>w' c'. smq_pusher_iteration alice_published [] [Shutdown] (Some ''ok'') = Inr w' \<and>
      smq w' = Some c' \<and> mem w' 1 = None \<and>
      freed w' = [''PUT'', ''localhost:8080/topic/t'', ''hello'', ''ok''] \<and>
      queue_abs (mem w') (outgoing c') [] \<and> \<not> Queue.running (outgoing c')"
    by (auto simp: client_defs held_def)
  from q g1 g2 g3 g4 show ?thesis by (intro conjI)
qed

end
